theory Spec2Isabelle
  imports Complex_Main "HOL-Library.Product_Lexorder" "HOL-Library.Word"
begin

section \<open>Data model\<close>

text \<open>
  The notebook \<^verbatim>\<open>main.ipynb\<close> represents a two-bar melody as an array of integer
  tokens, one per sixteenth note: 0 to 127 are MIDI pitches, 128 is sustain, 129 is rest.
  A piano-roll is a numpy array of floats that only ever holds 0.0 and 1.0; it is modelled
  as a list of rows over \<^typ>\<open>real\<close>. An exception of Python, numpy or the MIDI
  library is a value of \<open>error\<close>.
\<close>

datatype error = IndexError | OverflowError | ValueError | OSError | ShapeMismatch | InvalidToken

type_synonym matrix = "real list list"

text \<open>
  A one-dimensional numpy array comes with the type of its elements, and what
  \<^verbatim>\<open>astype(int)\<close> does to it depends on that type:
  \<^item> \<open>IntArray\<close>: 64-bit signed integers, the type numpy gives to \<^verbatim>\<open>x1\<close> and \<^verbatim>\<open>x2\<close>;
    the narrower integer types and booleans hold values that fit and convert unchanged;
  \<^item> \<open>UIntArray\<close>: 64-bit unsigned integers, whose bits the conversion reads as signed;
  \<^item> \<open>FloatArray\<close>: floats (the finite ones; they are reals here), which the
    conversion truncates toward zero;
  \<^item> \<open>ObjectArray\<close>: Python integers of any size, which the conversion rejects with
    OverflowError when one does not fit 64 bits.
  \<open>int_values\<close> gives the integers an array holds, when all its elements are integers.
\<close>

datatype ndarray =
    IntArray "64 word list"
  | UIntArray "64 word list"
  | FloatArray "real list"
  | ObjectArray "int list"

fun len :: "ndarray \<Rightarrow> nat" where
  "len (IntArray ws) = length ws"
| "len (UIntArray ws) = length ws"
| "len (FloatArray rs) = length rs"
| "len (ObjectArray xs) = length xs"

fun int_values :: "ndarray \<Rightarrow> int list option" where
  "int_values (IntArray ws) = Some (map sint ws)"
| "int_values (UIntArray ws) = Some (map uint ws)"
| "int_values (FloatArray rs) =
     (if list_all (\<lambda>r. real_of_int \<lfloor>r\<rfloor> = r) rs then Some (map floor rs) else None)"
| "int_values (ObjectArray xs) = Some xs"

text \<open>
  \<^verbatim>\<open>np.array\<close> of a list of Python integers that fit 64 signed bits, as the notebook
  builds \<^verbatim>\<open>x1\<close> and \<^verbatim>\<open>x2\<close>.
\<close>

definition int64_array :: "int list \<Rightarrow> ndarray" where
  "int64_array xs = IntArray (map word_of_int xs)"

text \<open>
  The tokens of the example melody \<^verbatim>\<open>x1\<close> ("From the new world") and of \<^verbatim>\<open>x2\<close> of the
  notebook; the arrays themselves are \<open>int64_array x1\<close> and \<open>int64_array x2\<close>.
\<close>

definition x1 :: "int list" where
  "x1 = [64, 128, 128, 67, 67, 128, 128, 128, 64, 128, 128, 62, 60, 128, 128, 128,
         62, 128, 128, 64, 67, 128, 128, 64, 62, 128, 128, 128, 129, 129, 129, 129]"

definition x2 :: "int list" where
  "x2 = replicate 32 60"

section \<open>The piano-roll encoder\<close>

text \<open>
  \<^verbatim>\<open>
  def note_array_to_onehot(note_array):
      pr = np.zeros((len(note_array), 130))
      pr[np.arange(0, len(note_array)), note_array.astype(int)] = 1.
      return pr
  \<close>
  The assignment is numpy's integer-array indexing. numpy first checks every index against
  the axis it addresses: an index \<open>i\<close> of an axis of size \<open>n\<close> is accepted when
  \<open>-n \<le> i < n\<close>, a negative one counting from the end, and anything else raises
  IndexError before a single cell is written. Then it stores the value at each
  (row, column) pair in turn.

  \<^verbatim>\<open>astype(int)\<close> converts the elements to 64-bit signed integers first. A signed
  integer is unchanged; an unsigned one of 2^63 or more wraps around to a negative one; a
  float loses its fraction, and one too large for 64 bits becomes the least 64-bit integer
  (the result of the cast on x86-64; whatever a platform gives there is out of bounds for
  130 columns); a Python integer that does not fit raises OverflowError.
\<close>

definition in_int64 :: "int \<Rightarrow> bool" where
  "in_int64 v \<longleftrightarrow> - (2 ^ 63) \<le> v \<and> v < 2 ^ 63"

definition float_to_int64 :: "real \<Rightarrow> int" where
  "float_to_int64 r =
     (let t = (if 0 \<le> r then \<lfloor>r\<rfloor> else - \<lfloor>- r\<rfloor>)
      in if in_int64 t then t else - (2 ^ 63))"

fun astype_int :: "ndarray \<Rightarrow> error + int list" where
  "astype_int (IntArray ws) = Inr (map sint ws)"
| "astype_int (UIntArray ws) = Inr (map sint ws)"
| "astype_int (FloatArray rs) = Inr (map float_to_int64 rs)"
| "astype_int (ObjectArray xs) = (if list_all in_int64 xs then Inr xs else Inl OverflowError)"

definition zeros :: "nat \<Rightarrow> nat \<Rightarrow> matrix" where
  "zeros r c = replicate r (replicate c 0)"

definition check_index :: "nat \<Rightarrow> int \<Rightarrow> error + nat" where
  "check_index n i =
     (if i < - int n \<or> int n \<le> i then Inl IndexError
      else Inr (nat (if i < 0 then i + int n else i)))"

fun check_indices :: "nat \<Rightarrow> int list \<Rightarrow> error + nat list" where
  "check_indices n [] = Inr []"
| "check_indices n (i # ixs) =
     (case check_index n i of
        Inl e \<Rightarrow> Inl e
      | Inr j \<Rightarrow> (case check_indices n ixs of Inl e \<Rightarrow> Inl e | Inr js \<Rightarrow> Inr (j # js)))"

definition setitem :: "matrix \<Rightarrow> nat list \<Rightarrow> nat list \<Rightarrow> real \<Rightarrow> matrix" where
  "setitem pr rows cols v = fold (\<lambda>(r, c) m. m[r := (m ! r)[c := v]]) (zip rows cols) pr"

definition note_array_to_onehot :: "ndarray \<Rightarrow> error + matrix" where
  "note_array_to_onehot note_array =
     (let pr = zeros (len note_array) 130 in
      case astype_int note_array of
        Inl e \<Rightarrow> Inl e
      | Inr ixs \<Rightarrow>
          (case check_indices 130 ixs of
             Inl e \<Rightarrow> Inl e
           | Inr cols \<Rightarrow> Inr (setitem pr [0..<len note_array] cols 1)))"

text \<open>The row that has its single 1 in column \<open>j\<close>, and the column a token lands in.\<close>

definition onehot_row :: "nat \<Rightarrow> real list" where
  "onehot_row j = (replicate 130 0)[j := 1]"

definition wrap :: "int \<Rightarrow> nat" where
  "wrap i = nat (if i < 0 then i + 130 else i)"

text \<open>
  A PianoRoll in the sense of the specification: 32 rows of 130 values, each 0 or 1, with
  exactly one 1 in every row.
\<close>

definition is_onehot_row :: "real list \<Rightarrow> bool" where
  "is_onehot_row r \<longleftrightarrow>
     length r = 130 \<and> list_all (\<lambda>v. v = 0 \<or> v = 1) r \<and> count_list r 1 = 1"

definition is_pianoroll :: "matrix \<Rightarrow> bool" where
  "is_pianoroll m \<longleftrightarrow> length m = 32 \<and> list_all is_onehot_row m"

text \<open>
  Modelled from the spec: the inverse transform PianoRoll to NoteArray, which the notebook
  does not define. The specification describes it as the per-row arg-max; \<open>argmax\<close> is
  numpy's, the index of the first largest entry (0 stands in for the empty row, which no
  piano-roll has).
\<close>

fun argmax_from :: "nat \<Rightarrow> nat \<Rightarrow> real \<Rightarrow> real list \<Rightarrow> nat" where
  "argmax_from i best bv [] = best"
| "argmax_from i best bv (v # vs) =
     (if bv < v then argmax_from (Suc i) i v vs else argmax_from (Suc i) best bv vs)"

definition argmax :: "real list \<Rightarrow> nat" where
  "argmax row = (case row of [] \<Rightarrow> 0 | v # vs \<Rightarrow> argmax_from 1 0 v vs)"

definition onehot_to_note_array :: "matrix \<Rightarrow> int list" where
  "onehot_to_note_array pr = map (\<lambda>row. int (argmax row)) pr"

section \<open>MIDI export\<close>

text \<open>
  \<^verbatim>\<open>
  def generate_midi_with_melody_chord(fn, mel_notes, c_notes):
      midi = pm.PrettyMIDI()
      ins1 = pm.Instrument(0)
      ins1.notes = mel_notes
      ins2 = pm.Instrument(0)
      ins2.notes = c_notes
      midi.instruments.append(ins1)
      midi.instruments.append(ins2)
      midi.write(fn)
  \<close>
  A note event is a pitch with its start and end in seconds; the MIDI library's note
  (\<^verbatim>\<open>pm.Note\<close>) has a velocity as well. An instrument has a program number and its notes
  (the field \<^verbatim>\<open>notes\<close>, here \<open>notes_list\<close>); a MIDI object is a list of instruments.
  The file system holds the MIDI objects written, by path, and says which paths can be
  opened for writing.
\<close>

record note_event =
  pitch :: int
  start_seconds :: real
  end_seconds :: real

record pm_note = note_event +
  velocity :: int

record instrument =
  program :: nat
  notes_list :: "pm_note list"

record pretty_midi =
  instruments :: "instrument list"

record file_system =
  files :: "string \<rightharpoonup> pretty_midi"
  can_open :: "string \<Rightarrow> bool"

definition PrettyMIDI :: pretty_midi where
  "PrettyMIDI = \<lparr>instruments = []\<rparr>"

definition Instrument :: "nat \<Rightarrow> instrument" where
  "Instrument p = \<lparr>program = p, notes_list = []\<rparr>"

text \<open>
  \<^verbatim>\<open>midi.write(fn)\<close> first turns every note of every instrument into MIDI messages, and
  a message takes data bytes only: a program, pitch or velocity outside 0..127 raises
  ValueError there, before any file is opened. Then it opens the path for writing, which
  raises OSError when the path cannot be opened (a missing directory, no permission), and
  stores the file, replacing what the path held. An exception leaves the file system as it
  was. The result is the exception or nothing, together with the file system afterwards.
\<close>

definition data_byte :: "int \<Rightarrow> bool" where
  "data_byte v \<longleftrightarrow> 0 \<le> v \<and> v \<le> 127"

definition note_ok :: "pm_note \<Rightarrow> bool" where
  "note_ok n \<longleftrightarrow> data_byte (pitch n) \<and> data_byte (velocity n)"

definition instrument_ok :: "instrument \<Rightarrow> bool" where
  "instrument_ok ins \<longleftrightarrow> data_byte (int (program ins)) \<and> list_all note_ok (notes_list ins)"

definition midi_write ::
  "pretty_midi \<Rightarrow> string \<Rightarrow> file_system \<Rightarrow> (error + unit) \<times> file_system" where
  "midi_write midi fn fs =
     (if list_ex (\<lambda>ins. \<not> instrument_ok ins) (instruments midi) then (Inl ValueError, fs)
      else if \<not> can_open fs fn then (Inl OSError, fs)
      else (Inr (), fs\<lparr>files := (files fs)(fn \<mapsto> midi)\<rparr>))"

definition generate_midi_with_melody_chord ::
  "string \<Rightarrow> pm_note list \<Rightarrow> pm_note list \<Rightarrow> file_system \<Rightarrow> (error + unit) \<times> file_system" where
  "generate_midi_with_melody_chord fn mel_notes c_notes fs =
     (let midi = PrettyMIDI;
          ins1 = Instrument 0;
          ins1 = ins1\<lparr>notes_list := mel_notes\<rparr>;
          ins2 = Instrument 0;
          ins2 = ins2\<lparr>notes_list := c_notes\<rparr>;
          midi = midi\<lparr>instruments := instruments midi @ [ins1]\<rparr>;
          midi = midi\<lparr>instruments := instruments midi @ [ins2]\<rparr>
      in midi_write midi fn fs)"

text \<open>
  Two file systems for the examples: an empty one where every path can be opened, and an
  empty one where none can (the directory \<^verbatim>\<open>./demo\<close> does not exist).
\<close>

definition empty_fs :: file_system where
  "empty_fs = \<lparr>files = Map.empty, can_open = (\<lambda>p. True)\<rparr>"

definition no_demo_fs :: file_system where
  "no_demo_fs = \<lparr>files = Map.empty, can_open = (\<lambda>p. False)\<rparr>"

section \<open>The note decoders\<close>

text \<open>
  The notebook calls \<^verbatim>\<open>note_array_to_notes\<close> and \<^verbatim>\<open>chord_to_notes\<close> as static
  methods of the imported class \<^verbatim>\<open>ec2vae.model.EC2VAE\<close>; the file that defines them
  is not among the sources. The definitions of this section are written from the
  specification's sections 4.2 (melody), 4.3 (chords) and 7 (errors). Times are floats in
  the program and reals here.
\<close>

text \<open>
  Modelled from the spec: the categories of section 4.2, which the missing
  \<^verbatim>\<open>note_array_to_notes\<close> tells apart: 0..127 is an onset of that pitch, 128 a hold,
  129 a rest. The specification gives no case for a category outside 0..129; such a
  sequence is rejected with InvalidToken, as section 7 rejects it at the encoder.
\<close>

datatype category = Onset int | Hold | Rest

definition categorize :: "int \<Rightarrow> error + category" where
  "categorize t =
     (if 0 \<le> t \<and> t \<le> 127 then Inr (Onset t)
      else if t = 128 then Inr Hold
      else if t = 129 then Inr Rest
      else Inl InvalidToken)"

fun categorize_all :: "int list \<Rightarrow> error + category list" where
  "categorize_all [] = Inr []"
| "categorize_all (t # ts) =
     (case categorize t of
        Inl e \<Rightarrow> Inl e
      | Inr c \<Rightarrow> (case categorize_all ts of Inl e \<Rightarrow> Inl e | Inr cs \<Rightarrow> Inr (c # cs)))"

text \<open>
  Modelled from the spec: the scan of section 4.2, the body of the missing
  \<^verbatim>\<open>note_array_to_notes\<close>. It goes through the steps from left to right and keeps the
  active pitch together with the step at which its run began. An onset closes the active
  run and begins a new one at the current step; a hold extends the active run and does
  nothing when no pitch is active; a rest closes the active run. At the end of the
  sequence the active run is closed at the end boundary. A run is kept as
  (pitch, first step, closing step).
\<close>

type_synonym run = "int \<times> nat \<times> nat"

fun close_run :: "(int \<times> nat) option \<Rightarrow> nat \<Rightarrow> run list" where
  "close_run None i = []"
| "close_run (Some (p, s)) i = [(p, s, i)]"

fun run_length_merge :: "nat \<Rightarrow> (int \<times> nat) option \<Rightarrow> category list \<Rightarrow> run list" where
  "run_length_merge i active [] = close_run active i"
| "run_length_merge i active (Onset p # cs) =
     close_run active i @ run_length_merge (Suc i) (Some (p, i)) cs"
| "run_length_merge i active (Hold # cs) = run_length_merge (Suc i) active cs"
| "run_length_merge i active (Rest # cs) =
     close_run active i @ run_length_merge (Suc i) None cs"

text \<open>
  Modelled from the spec: the times of section 4.2. One step lasts 60 / bpm / 4 seconds,
  and step \<open>i\<close> begins at the start offset plus \<open>i\<close> steps.
\<close>

definition step_duration :: "real \<Rightarrow> real" where
  "step_duration bpm = 60 / bpm / 4"

definition step_time :: "real \<Rightarrow> real \<Rightarrow> nat \<Rightarrow> real" where
  "step_time bpm start i = start + real i * step_duration bpm"

fun to_note_event :: "real \<Rightarrow> real \<Rightarrow> run \<Rightarrow> note_event" where
  "to_note_event bpm start (p, s, e) =
     \<lparr>pitch = p, start_seconds = step_time bpm start s, end_seconds = step_time bpm start e\<rparr>"

text \<open>
  Modelled from the spec: \<^verbatim>\<open>note_array_to_notes(note_array, bpm, start)\<close>, missing from
  the sources. A sequence whose length is not 32 is rejected with ShapeMismatch
  (section 7); otherwise the runs of the scan become events.
\<close>

definition note_array_to_notes :: "int list \<Rightarrow> real \<Rightarrow> real \<Rightarrow> error + note_event list" where
  "note_array_to_notes note_array bpm start =
     (if length note_array \<noteq> 32 then Inl ShapeMismatch
      else case categorize_all note_array of
        Inl e \<Rightarrow> Inl e
      | Inr cs \<Rightarrow> Inr (map (to_note_event bpm start) (run_length_merge 0 None cs)))"

text \<open>
  Modelled from the spec: the reading of the scan that section 8 takes. Its property
  "idempotence of run-length merge" has 32 copies of pitch 60 decode to exactly one event
  of four seconds, which the scan of section 4.2 does not give (there every onset begins a
  run). Under this reading an onset of the pitch that is already active extends its run as
  a hold does; everything else is as in section 4.2. The missing
  \<^verbatim>\<open>note_array_to_notes\<close> may follow either reading.
\<close>

fun run_length_merge_idem :: "nat \<Rightarrow> (int \<times> nat) option \<Rightarrow> category list \<Rightarrow> run list" where
  "run_length_merge_idem i active [] = close_run active i"
| "run_length_merge_idem i active (Onset p # cs) =
     (case active of
        None \<Rightarrow> run_length_merge_idem (Suc i) (Some (p, i)) cs
      | Some (q, s) \<Rightarrow>
          if q = p then run_length_merge_idem (Suc i) active cs
          else (q, s, i) # run_length_merge_idem (Suc i) (Some (p, i)) cs)"
| "run_length_merge_idem i active (Hold # cs) = run_length_merge_idem (Suc i) active cs"
| "run_length_merge_idem i active (Rest # cs) =
     close_run active i @ run_length_merge_idem (Suc i) None cs"

definition note_array_to_notes_idem :: "int list \<Rightarrow> real \<Rightarrow> real \<Rightarrow> error + note_event list" where
  "note_array_to_notes_idem note_array bpm start =
     (if length note_array \<noteq> 32 then Inl ShapeMismatch
      else case categorize_all note_array of
        Inl e \<Rightarrow> Inl e
      | Inr cs \<Rightarrow> Inr (map (to_note_event bpm start) (run_length_merge_idem 0 None cs)))"

text \<open>
  Runs that follow one another: each begins at or after the bound, lasts at least one
  step, and the next begins no earlier than it closes.
\<close>

fun chained :: "nat \<Rightarrow> run list \<Rightarrow> bool" where
  "chained lb [] = True"
| "chained lb ((p, s, e) # rs) = (lb \<le> s \<and> s < e \<and> chained e rs)"

text \<open>
  The chords of the notebook, as 12-entry chroma rows, and its two progressions.
\<close>

definition amin :: "int list" where "amin = [1, 0, 0, 0, 1, 0, 0, 0, 0, 1, 0, 0]"
definition gmaj :: "int list" where "gmaj = [0, 0, 1, 0, 0, 0, 0, 1, 0, 0, 0, 1]"
definition fmaj :: "int list" where "fmaj = [1, 0, 0, 0, 0, 1, 0, 0, 0, 1, 0, 0]"
definition emin :: "int list" where "emin = [0, 0, 0, 0, 1, 0, 0, 1, 0, 0, 0, 1]"
definition cmaj :: "int list" where "cmaj = [1, 0, 0, 0, 1, 0, 0, 1, 0, 0, 0, 0]"
definition cmin :: "int list" where "cmin = [1, 0, 0, 1, 0, 0, 0, 1, 0, 0, 0, 0]"

definition c1 :: "int list list" where
  "c1 = replicate 16 cmaj @ replicate 16 gmaj"

definition c2 :: "int list list" where
  "c2 = replicate 8 amin @ replicate 8 gmaj @ replicate 8 fmaj @ replicate 8 emin"

text \<open>
  Modelled from the spec: \<^verbatim>\<open>chord_to_notes(chroma, bpm, start)\<close>, missing from the
  sources. Section 4.3 runs the same merge once for each of the 12 pitch classes: a step where the
  class sounds counts as an onset when the class was silent at the step before (or there
  is none) and as a hold otherwise, a step where it is silent counts as a rest. The pitch
  of class \<open>c\<close> is a fixed anchor plus \<open>c\<close>; the specification leaves the anchor to the
  implementation (48 is its example), so it is a parameter. The events of all classes are
  sorted by start time, then pitch. A chroma that is not 32 rows of 12 entries is rejected
  with ShapeMismatch.
\<close>

fun chroma_categories :: "int \<Rightarrow> bool \<Rightarrow> bool list \<Rightarrow> category list" where
  "chroma_categories p prev [] = []"
| "chroma_categories p prev (a # as) =
     (if a then (if prev then Hold else Onset p) else Rest) # chroma_categories p a as"

definition class_column :: "int list list \<Rightarrow> nat \<Rightarrow> bool list" where
  "class_column chroma c = map (\<lambda>row. row ! c = 1) chroma"

definition class_runs :: "int \<Rightarrow> int list list \<Rightarrow> nat \<Rightarrow> run list" where
  "class_runs anchor chroma c =
     run_length_merge 0 None
       (chroma_categories (anchor + int c) False (class_column chroma c))"

definition chord_to_notes ::
  "int \<Rightarrow> int list list \<Rightarrow> real \<Rightarrow> real \<Rightarrow> error + note_event list" where
  "chord_to_notes anchor chroma bpm start =
     (if length chroma \<noteq> 32 \<or> list_ex (\<lambda>row. length row \<noteq> 12) chroma then Inl ShapeMismatch
      else Inr (sort_key (\<lambda>e. (start_seconds e, pitch e))
                  (map (to_note_event bpm start)
                     (concat (map (class_runs anchor chroma) [0..<12])))))"

text \<open>
  A block of a pitch class: the steps \<open>a\<close> up to, not including, \<open>b\<close> of its column all
  sound, the step before \<open>a\<close> does not (\<open>prev\<close> says whether the class sounded before
  the column begins), and neither does step \<open>b\<close> when the column goes that far. A
  ChordChroma is 32 rows of 12 entries, each 0 or 1.
\<close>

definition sounding_block :: "bool \<Rightarrow> bool list \<Rightarrow> nat \<Rightarrow> nat \<Rightarrow> bool" where
  "sounding_block prev col a b \<longleftrightarrow>
     a < b \<and> b \<le> length col \<and> (\<forall>t\<in>{a..<b}. col ! t) \<and>
     (if a = 0 then \<not> prev else \<not> col ! (a - 1)) \<and>
     (b = length col \<or> \<not> col ! b)"

definition is_chord_chroma :: "int list list \<Rightarrow> bool" where
  "is_chord_chroma chroma \<longleftrightarrow>
     length chroma = 32 \<and>
     list_all (\<lambda>row. length row = 12 \<and> list_all (\<lambda>v. v = 0 \<or> v = 1) row) chroma"

section \<open>Properties of the encoder\<close>

lemma setitem_zeros_gen:
  "length cols = n \<Longrightarrow>
   setitem (zeros (n + k) c) [0..<n] cols 1 =
     map (\<lambda>j. (replicate c 0)[j := 1]) cols @ replicate k (replicate c 0)"
proof (induction cols arbitrary: n k rule: rev_induct)
  case Nil
  then show ?case by (simp add: setitem_def zeros_def)
next
  case (snoc j cs)
  then obtain n' where n: "n = Suc n'" and len: "length cs = n'" by (cases n) auto
  have ih: "setitem (zeros (n' + Suc k) c) [0..<n'] cs 1 =
      map (\<lambda>j. (replicate c 0)[j := 1]) cs @ replicate (Suc k) (replicate c 0)"
    using snoc.IH [OF len] .
  have "setitem (zeros (n + k) c) [0..<n] (cs @ [j]) 1 =
      (\<lambda>m. m[n' := (m ! n')[j := 1]]) (setitem (zeros (n' + Suc k) c) [0..<n'] cs 1)"
    using len by (simp add: setitem_def n)
  also have "\<dots> = map (\<lambda>j. (replicate c 0)[j := 1]) (cs @ [j]) @ replicate k (replicate c 0)"
    unfolding ih using len by (simp add: list_update_append nth_append)
  finally show ?case .
qed

lemma setitem_zeros:
  "length cols = n \<Longrightarrow>
   setitem (zeros n c) [0..<n] cols 1 = map (\<lambda>j. (replicate c 0)[j := 1]) cols"
  using setitem_zeros_gen [of cols n 0 c] by simp

lemma check_indices_eq:
  "check_indices 130 xs =
     (if \<forall>v\<in>set xs. - 130 \<le> v \<and> v \<le> 129 then Inr (map wrap xs) else Inl IndexError)"
proof (induction xs)
  case Nil
  show ?case by simp
next
  case (Cons x xs)
  show ?case
  proof (cases "- 130 \<le> x \<and> x \<le> 129")
    case True
    then have "check_index 130 x = Inr (wrap x)" by (auto simp: check_index_def wrap_def)
    then show ?thesis using True Cons.IH by simp
  next
    case False
    then have "check_index 130 x = Inl IndexError" by (auto simp: check_index_def)
    then show ?thesis using False by auto
  qed
qed

lemma sint_uint_small:
  fixes w :: "64 word"
  assumes "in_int64 (uint w)"
  shows "sint w = uint w"
proof -
  have "sint w = signed_take_bit 63 (uint w)" by (simp add: sint_uint)
  also have "\<dots> = uint w"
    using assms by (intro signed_take_bit_int_eq_self) (simp_all add: in_int64_def)
  finally show ?thesis .
qed

lemma sint_word_of_int_small:
  assumes "in_int64 v"
  shows "sint (word_of_int v :: 64 word) = v"
proof -
  have "sint (word_of_int v :: 64 word) = signed_take_bit 63 v" by (simp add: sint_sbintrunc')
  also have "\<dots> = v"
    using assms by (intro signed_take_bit_int_eq_self) (simp_all add: in_int64_def)
  finally show ?thesis .
qed

lemma float_to_int64_integral:
  assumes "real_of_int \<lfloor>r\<rfloor> = r" and "in_int64 \<lfloor>r\<rfloor>"
  shows "float_to_int64 r = \<lfloor>r\<rfloor>"
proof -
  have "- \<lfloor>- r\<rfloor> = \<lfloor>r\<rfloor>"
    using assms(1) by (metis floor_of_int of_int_minus minus_minus)
  then show ?thesis using assms(2) by (simp add: float_to_int64_def)
qed

lemma astype_int_values:
  assumes "int_values a = Some xs" and "\<forall>v\<in>set xs. in_int64 v"
  shows "astype_int a = Inr xs"
proof (cases a)
  case (IntArray ws)
  then show ?thesis using assms by simp
next
  case (UIntArray ws)
  with assms have xs: "xs = map uint ws" and "\<forall>w\<in>set ws. in_int64 (uint w)" by auto
  then have "map sint ws = map uint ws" by (simp add: sint_uint_small)
  then show ?thesis using UIntArray xs by simp
next
  case (FloatArray rs)
  with assms have ok: "list_all (\<lambda>r. real_of_int \<lfloor>r\<rfloor> = r) rs" and xs: "xs = map floor rs"
    by (auto split: if_splits)
  have "map float_to_int64 rs = map floor rs"
  proof (rule map_cong [OF refl])
    fix r assume r: "r \<in> set rs"
    then have "real_of_int \<lfloor>r\<rfloor> = r" using ok by (simp add: list_all_iff)
    moreover have "in_int64 \<lfloor>r\<rfloor>" using r assms(2) xs by simp
    ultimately show "float_to_int64 r = \<lfloor>r\<rfloor>" by (rule float_to_int64_integral)
  qed
  then show ?thesis using FloatArray xs by simp
next
  case (ObjectArray ys)
  then show ?thesis using assms by (simp add: list_all_iff)
qed

lemma length_astype_int: "astype_int a = Inr xs \<Longrightarrow> length xs = len a"
  by (cases a) (auto split: if_splits)

lemma astype_int_error: "astype_int a = Inl e \<Longrightarrow> e = OverflowError"
  by (cases a) (auto split: if_splits)

lemma int_values_int64_array:
  "\<forall>v\<in>set xs. in_int64 v \<Longrightarrow> int_values (int64_array xs) = Some xs"
  by (simp add: int64_array_def comp_def sint_word_of_int_small map_idI)

lemma small_in_int64: "- 130 \<le> v \<Longrightarrow> v \<le> 129 \<Longrightarrow> in_int64 v"
  by (simp add: in_int64_def)

lemma onehot_of_indices:
  assumes "astype_int a = Inr xs"
  shows "note_array_to_onehot a =
     (if \<forall>v\<in>set xs. - 130 \<le> v \<and> v \<le> 129 then Inr (map (\<lambda>v. onehot_row (wrap v)) xs)
      else Inl IndexError)"
proof -
  have n: "len a = length xs" using assms by (simp add: length_astype_int)
  show ?thesis
    by (simp add: note_array_to_onehot_def assms n check_indices_eq setitem_zeros
        onehot_row_def comp_def)
qed

lemma onehot_accepts:
  assumes "int_values a = Some xs" and "\<forall>v\<in>set xs. - 130 \<le> v \<and> v \<le> 129"
  shows "note_array_to_onehot a = Inr (map (\<lambda>v. onehot_row (wrap v)) xs)"
proof -
  have "\<forall>v\<in>set xs. in_int64 v" using assms(2) by (auto intro: small_in_int64)
  with assms(1) have "astype_int a = Inr xs" by (rule astype_int_values)
  then show ?thesis using assms(2) by (simp add: onehot_of_indices)
qed

lemma onehot_rejects:
  assumes "int_values a = Some xs" and "\<forall>v\<in>set xs. in_int64 v"
    and "\<exists>v\<in>set xs. v < - 130 \<or> 129 < v"
  shows "note_array_to_onehot a = Inl IndexError"
proof -
  from assms(1,2) have "astype_int a = Inr xs" by (rule astype_int_values)
  moreover from assms(3) have "\<not> (\<forall>v\<in>set xs. - 130 \<le> v \<and> v \<le> 129)" by force
  ultimately show ?thesis by (simp add: onehot_of_indices)
qed

lemma onehot_int64_array:
  assumes "\<forall>v\<in>set xs. - 130 \<le> v \<and> v \<le> 129"
  shows "note_array_to_onehot (int64_array xs) = Inr (map (\<lambda>v. onehot_row (wrap v)) xs)"
proof -
  have "\<forall>v\<in>set xs. in_int64 v" using assms by (auto intro: small_in_int64)
  then have "int_values (int64_array xs) = Some xs" by (rule int_values_int64_array)
  then show ?thesis using assms by (rule onehot_accepts)
qed

lemma length_onehot_row: "length (onehot_row j) = 130"
  by (simp add: onehot_row_def)

lemma nth_onehot_row: "k < 130 \<Longrightarrow> onehot_row j ! k = (if k = j then 1 else 0)"
  by (simp add: onehot_row_def nth_list_update)

lemma count_onehot_row: "j < 130 \<Longrightarrow> count_list (onehot_row j) 1 = 1"
  by (simp add: onehot_row_def upd_conv_take_nth_drop count_list_append)

lemma wrap_less: "- 130 \<le> v \<Longrightarrow> v \<le> 129 \<Longrightarrow> wrap v < 130"
  by (auto simp: wrap_def)

lemma wrap_token: "0 \<le> v \<Longrightarrow> int (wrap v) = v"
  by (simp add: wrap_def)

lemma x1_valid: "length x1 = 32 \<and> (\<forall>v\<in>set x1. 0 \<le> v \<and> v \<le> 129)"
  by (simp add: x1_def)

lemma x1_array: "int_values (int64_array x1) = Some x1"
  by (rule int_values_int64_array) (simp add: x1_def in_int64_def)

text \<open>
  What the conversion does outside the 64-bit signed integers: the unsigned token
  2^64 - 1 is read as -1 and encoded as the rest token 129 is, the Python integer 2^64
  raises OverflowError, and the float -0.5 is truncated to 0.
\<close>

lemma uint64_token_wraps:
  "int_values (UIntArray [18446744073709551615]) = Some [18446744073709551615] \<and>
   note_array_to_onehot (UIntArray [18446744073709551615]) = Inr [onehot_row 129]"
proof -
  have "astype_int (UIntArray [18446744073709551615]) = Inr [- 1]" by simp
  then show ?thesis by (simp add: onehot_of_indices wrap_def)
qed

lemma object_token_overflows:
  "note_array_to_onehot (ObjectArray [18446744073709551616]) = Inl OverflowError"
  by (simp add: note_array_to_onehot_def in_int64_def)

lemma float_token_truncated:
  "note_array_to_onehot (FloatArray [- 0.5]) = Inr [onehot_row 0]"
proof -
  have "astype_int (FloatArray [- 0.5]) = Inr [0]"
    by (simp add: float_to_int64_def in_int64_def)
  then show ?thesis by (simp add: onehot_of_indices wrap_def)
qed

text \<open>
  C1. A note array of 32 integer tokens, each in 0..129, is encoded as a matrix of 32 rows
  of 130 entries; in row \<open>t\<close> the entry in the column of token \<open>t\<close> is 1 and every other
  entry is 0, so the row holds exactly one 1.
\<close>

theorem note_array_to_onehot_correct:
  assumes "int_values note_array = Some tokens" and "length tokens = 32"
    and "\<forall>v\<in>set tokens. 0 \<le> v \<and> v \<le> 129"
  shows "\<exists>pr. note_array_to_onehot note_array = Inr pr \<and> length pr = 32 \<and>
           (\<forall>t<32. length (pr ! t) = 130 \<and>
              (\<forall>j<130. pr ! t ! j = (if int j = tokens ! t then 1 else 0)) \<and>
              count_list (pr ! t) 1 = 1)"
proof -
  let ?pr = "map (\<lambda>v. onehot_row (wrap v)) tokens"
  have enc: "note_array_to_onehot note_array = Inr ?pr"
    using assms(1,3) by (intro onehot_accepts) auto
  have rows: "length (?pr ! t) = 130 \<and>
      (\<forall>j<130. ?pr ! t ! j = (if int j = tokens ! t then 1 else 0)) \<and>
      count_list (?pr ! t) 1 = 1" if t: "t < 32" for t
  proof -
    have mem: "tokens ! t \<in> set tokens" using t assms(2) by simp
    then have rng: "0 \<le> tokens ! t" "tokens ! t \<le> 129" using assms(3) by auto
    have w: "wrap (tokens ! t) < 130" using rng by (simp add: wrap_less)
    have wi: "int (wrap (tokens ! t)) = tokens ! t" using rng by (simp add: wrap_token)
    have row: "?pr ! t = onehot_row (wrap (tokens ! t))" using t assms(2) by simp
    have "\<forall>j<130. onehot_row (wrap (tokens ! t)) ! j = (if int j = tokens ! t then 1 else 0)"
      using wi by (auto simp: nth_onehot_row)
    then show ?thesis
      unfolding row using w by (simp add: length_onehot_row count_onehot_row)
  qed
  show ?thesis
    using enc rows assms(2) by (intro exI [of _ ?pr]) simp
qed

theorem note_array_to_onehot_correct_witness:
  "\<exists>pr. note_array_to_onehot (int64_array x1) = Inr pr \<and> length pr = 32 \<and>
     length (pr ! 0) = 130 \<and> pr ! 0 ! 64 = 1 \<and> pr ! 0 ! 63 = 0 \<and> count_list (pr ! 0) 1 = 1"
proof -
  have len: "length x1 = 32" and rng: "\<forall>v\<in>set x1. 0 \<le> v \<and> v \<le> 129"
    using x1_valid by simp_all
  have hd: "x1 ! 0 = 64" by (simp add: x1_def)
  obtain pr where pr: "note_array_to_onehot (int64_array x1) = Inr pr" "length pr = 32"
      "\<forall>t<32. length (pr ! t) = 130 \<and>
         (\<forall>j<130. pr ! t ! j = (if int j = x1 ! t then 1 else 0)) \<and> count_list (pr ! t) 1 = 1"
    using note_array_to_onehot_correct [OF x1_array len rng] by blast
  from pr(3) have r0: "length (pr ! 0) = 130" "count_list (pr ! 0) 1 = 1"
      "\<forall>j<130. pr ! 0 ! j = (if int j = x1 ! 0 then 1 else 0)"
    by simp_all
  from r0(3) have "pr ! 0 ! 64 = 1" "pr ! 0 ! 63 = 0" unfolding hd by simp_all
  with pr(1,2) r0(1,2) show ?thesis by blast
qed

text \<open>
  C3 says that a sequence with a token outside 0..129 is rejected with an out-of-range
  error. The function has no check of its own: the only rejection is numpy's bounds check,
  which lets the negative indices -130..-1 through, and it comes after the conversion to
  64-bit signed integers. A melody that starts with the token -1 is encoded, and its first
  row is the row of the rest token 129; so is the unsigned 64-bit token 2^64 - 1, which
  the conversion reads as -1.
\<close>

theorem note_array_to_onehot_negative_token_accepted:
  "- 1 \<in> set (- 1 # replicate 31 (129::int)) \<and>
   note_array_to_onehot (int64_array (- 1 # replicate 31 129)) =
     Inr (replicate 32 (onehot_row 129)) \<and>
   int_values (UIntArray [18446744073709551615]) = Some [18446744073709551615] \<and>
   note_array_to_onehot (UIntArray [18446744073709551615]) = Inr [onehot_row 129]"
proof -
  have "note_array_to_onehot (int64_array (- 1 # replicate 31 129)) =
      Inr (map (\<lambda>v. onehot_row (wrap v)) (- 1 # replicate 31 129))"
    by (rule onehot_int64_array) simp
  moreover have "replicate 32 y = y # replicate 31 y" for y :: "real list"
    using replicate_Suc [of 31 y] by simp
  ultimately show ?thesis using uint64_token_wraps by (simp add: wrap_def)
qed

text \<open>
  C3, as the code has it. A sequence of integer tokens that fit 64 signed bits, with a
  token below -130 or above 129 among them, is rejected with numpy's IndexError, and no
  piano-roll is returned, neither clamped nor partial.
\<close>

theorem note_array_to_onehot_out_of_bounds:
  assumes "int_values note_array = Some tokens"
    and "\<forall>v\<in>set tokens. - (2 ^ 63) \<le> v \<and> v < 2 ^ 63"
    and "\<exists>v\<in>set tokens. v < - 130 \<or> 129 < v"
  shows "note_array_to_onehot note_array = Inl IndexError"
  using assms by (intro onehot_rejects) (simp_all add: in_int64_def)

theorem note_array_to_onehot_out_of_bounds_witness:
  "note_array_to_onehot (int64_array (x1[3 := 130])) = Inl IndexError"
proof -
  have fit: "\<forall>v\<in>set (x1[3 := 130]). - (2 ^ 63) \<le> v \<and> v < 2 ^ 63" by (simp add: x1_def)
  then have "\<forall>v\<in>set (x1[3 := 130]). in_int64 v" by (simp add: in_int64_def)
  then have vals: "int_values (int64_array (x1[3 := 130])) = Some (x1[3 := 130])"
    by (rule int_values_int64_array)
  have "\<exists>v\<in>set (x1[3 := 130]). v < - 130 \<or> 129 < v" by (simp add: x1_def)
  with vals fit show ?thesis by (rule note_array_to_onehot_out_of_bounds)
qed

text \<open>
  C4 says that a sequence whose length is not 32 is rejected with ShapeMismatch. The
  function never looks at the length except to size the matrix: a sequence of one token is
  encoded as a matrix of one row.
\<close>

theorem note_array_to_onehot_short_input_accepted:
  "length [60::int] \<noteq> 32 \<and> note_array_to_onehot (int64_array [60]) = Inr [onehot_row 60]"
proof -
  have "note_array_to_onehot (int64_array [60]) = Inr (map (\<lambda>v. onehot_row (wrap v)) [60])"
    by (rule onehot_int64_array) simp
  then show ?thesis by (simp add: wrap_def)
qed

text \<open>
  C4, as the code has it. The function never fails with ShapeMismatch, and a sequence of
  any length whose tokens are integers in -130..129 is encoded as a matrix with one row of
  130 entries for each token.
\<close>

theorem note_array_to_onehot_any_length:
  "note_array_to_onehot note_array \<noteq> Inl ShapeMismatch \<and>
   (int_values note_array = Some tokens \<and> (\<forall>v\<in>set tokens. - 130 \<le> v \<and> v \<le> 129) \<longrightarrow>
      (\<exists>pr. note_array_to_onehot note_array = Inr pr \<and> length pr = length tokens \<and>
         (\<forall>row\<in>set pr. length row = 130)))"
proof (intro conjI impI)
  show "note_array_to_onehot note_array \<noteq> Inl ShapeMismatch"
  proof (cases "astype_int note_array")
    case (Inl e)
    then have "e = OverflowError" by (rule astype_int_error)
    with Inl show ?thesis by (simp add: note_array_to_onehot_def)
  next
    case (Inr xs)
    then show ?thesis by (simp add: onehot_of_indices)
  qed
next
  assume h: "int_values note_array = Some tokens \<and> (\<forall>v\<in>set tokens. - 130 \<le> v \<and> v \<le> 129)"
  then have "note_array_to_onehot note_array = Inr (map (\<lambda>v. onehot_row (wrap v)) tokens)"
    by (intro onehot_accepts) simp_all
  then show "\<exists>pr. note_array_to_onehot note_array = Inr pr \<and> length pr = length tokens \<and>
         (\<forall>row\<in>set pr. length row = 130)"
    by (auto simp: length_onehot_row)
qed

theorem note_array_to_onehot_any_length_witness:
  "\<exists>pr. note_array_to_onehot (int64_array [60, 128, 129]) = Inr pr \<and> length pr = 3 \<and>
     list_all (\<lambda>row. length row = 130) pr"
proof -
  have "\<forall>v\<in>set [60, 128, 129::int]. in_int64 v" by (simp add: in_int64_def)
  then have vals: "int_values (int64_array [60, 128, 129]) = Some [60, 128, 129]"
    by (rule int_values_int64_array)
  have "\<forall>v\<in>set [60, 128, 129::int]. - 130 \<le> v \<and> v \<le> 129" by simp
  with vals note_array_to_onehot_any_length [of "int64_array [60, 128, 129]" "[60, 128, 129]"]
  show ?thesis by (auto simp: list_all_iff)
qed

text \<open>
  C10. In a sequence of integer tokens within numpy's bounds for 130 columns, -130..129,
  a negative token at step \<open>t\<close> does not fail: row \<open>t\<close> has its single 1 in column 130
  plus the token, and the whole result is the one the sequence gives with that token
  replaced by 130 plus the token (so -1 is encoded as the rest token 129 is).
\<close>

theorem note_array_to_onehot_negative_wraps:
  assumes "int_values note_array = Some tokens"
    and "\<forall>v\<in>set tokens. - 130 \<le> v \<and> v \<le> 129"
    and "t < length tokens" and "tokens ! t < 0"
  shows "\<exists>pr. note_array_to_onehot note_array = Inr pr \<and> length (pr ! t) = 130 \<and>
           (\<forall>j<130. pr ! t ! j = (if int j = 130 + tokens ! t then 1 else 0)) \<and>
           count_list (pr ! t) 1 = 1 \<and>
           note_array_to_onehot (int64_array (tokens[t := 130 + tokens ! t])) = Inr pr"
proof -
  let ?f = "\<lambda>v. onehot_row (wrap v)"
  let ?pr = "map ?f tokens"
  let ?v = "tokens ! t"
  have enc: "note_array_to_onehot note_array = Inr ?pr"
    using assms(1,2) by (rule onehot_accepts)
  have mem: "?v \<in> set tokens" using assms(3) by simp
  then have lo: "- 130 \<le> ?v" using assms(2) by auto
  have w: "wrap ?v = nat (130 + ?v)" using assms(4) by (simp add: wrap_def add.commute)
  have w': "wrap (130 + ?v) = wrap ?v" using lo assms(4) by (simp add: wrap_def add.commute)
  have wl: "wrap ?v < 130" using lo assms(4) by (simp add: wrap_less)
  have wi: "int (wrap ?v) = 130 + ?v" using lo w by simp
  have row: "?pr ! t = onehot_row (wrap ?v)" using assms(3) by simp
  have cells: "\<forall>j<130. ?pr ! t ! j = (if int j = 130 + ?v then 1 else 0)"
    unfolding row using wi by (auto simp: nth_onehot_row)
  have rng': "\<forall>v\<in>set (tokens[t := 130 + ?v]). - 130 \<le> v \<and> v \<le> 129"
  proof
    fix v assume "v \<in> set (tokens[t := 130 + ?v])"
    then have "v = 130 + ?v \<or> v \<in> set tokens"
      using set_update_subset_insert [of tokens t "130 + ?v"] by auto
    then show "- 130 \<le> v \<and> v \<le> 129" using assms(2,4) lo by auto
  qed
  have "note_array_to_onehot (int64_array (tokens[t := 130 + ?v])) =
      Inr (map ?f (tokens[t := 130 + ?v]))"
    using rng' by (rule onehot_int64_array)
  also have "map ?f (tokens[t := 130 + ?v]) = ?pr[t := ?f ?v]"
    by (simp add: map_update w')
  also have "\<dots> = ?pr" using assms(3) by (simp add: list_update_same_conv)
  finally have same: "note_array_to_onehot (int64_array (tokens[t := 130 + ?v])) = Inr ?pr" .
  show ?thesis
    using enc cells same wl unfolding row [symmetric]
    by (intro exI [of _ ?pr]) (simp add: row length_onehot_row count_onehot_row)
qed

theorem note_array_to_onehot_negative_wraps_witness:
  "\<exists>pr. note_array_to_onehot (int64_array (x1[28 := - 1])) = Inr pr \<and> pr ! 28 ! 129 = 1 \<and>
     pr ! 28 ! 0 = 0 \<and> note_array_to_onehot (int64_array x1) = Inr pr"
proof -
  let ?xs = "x1[28 := - 1]"
  have h1: "\<forall>v\<in>set ?xs. - 130 \<le> v \<and> v \<le> 129" by (simp add: x1_def)
  then have "\<forall>v\<in>set ?xs. in_int64 v" by (auto intro: small_in_int64)
  then have h0: "int_values (int64_array ?xs) = Some ?xs" by (rule int_values_int64_array)
  have h2: "28 < length ?xs" by (simp add: x1_def)
  have h3: "?xs ! 28 < 0" by (simp add: x1_def)
  have v: "?xs ! 28 = - 1" by (simp add: x1_def)
  have restored: "?xs[28 := 130 + ?xs ! 28] = x1" by (simp add: x1_def)
  obtain pr where pr: "note_array_to_onehot (int64_array ?xs) = Inr pr"
      "\<forall>j<130. pr ! 28 ! j = (if int j = 130 + ?xs ! 28 then 1 else 0)"
      "note_array_to_onehot (int64_array (?xs[28 := 130 + ?xs ! 28])) = Inr pr"
    using note_array_to_onehot_negative_wraps [OF h0 h1 h2 h3] by blast
  from pr(2) have "pr ! 28 ! 129 = 1" "pr ! 28 ! 0 = 0" unfolding v by simp_all
  with pr(1) pr(3) show ?thesis unfolding restored by blast
qed

subsection \<open>The round trip through the arg-max\<close>

lemma argmax_from_no_greater:
  "\<forall>v\<in>set vs. v \<le> bv \<Longrightarrow> argmax_from i best bv vs = best"
  by (induction vs arbitrary: i) auto

lemma argmax_from_skip:
  "\<forall>v\<in>set xs. v \<le> bv \<Longrightarrow>
   argmax_from i best bv (xs @ ys) = argmax_from (i + length xs) best bv ys"
  by (induction xs arbitrary: i) auto

lemma onehot_row_split:
  "j < 130 \<Longrightarrow> onehot_row j = replicate j 0 @ 1 # replicate (129 - j) 0"
  by (simp add: onehot_row_def upd_conv_take_nth_drop)

lemma argmax_onehot_row:
  assumes "j < 130"
  shows "argmax (onehot_row j) = j"
proof (cases j)
  case 0
  then show ?thesis
    by (simp add: onehot_row_split argmax_def argmax_from_no_greater)
next
  case (Suc k)
  have "onehot_row j = 0 # (replicate k 0 @ 1 # replicate (129 - j) 0)"
    using assms Suc by (simp add: onehot_row_split)
  then have "argmax (onehot_row j) = argmax_from 1 0 0 (replicate k 0 @ 1 # replicate (129 - j) 0)"
    by (simp add: argmax_def)
  also have "\<dots> = argmax_from (1 + k) 0 0 (1 # replicate (129 - j) 0)"
    using argmax_from_skip [of "replicate k 0" 0 1 0 "1 # replicate (129 - j) 0"] by simp
  also have "\<dots> = j"
    using Suc by (simp add: argmax_from_no_greater)
  finally show ?thesis .
qed

lemma count_list_one_unique:
  "count_list xs x = 1 \<Longrightarrow> i < length xs \<Longrightarrow> k < length xs \<Longrightarrow>
   xs ! i = x \<Longrightarrow> xs ! k = x \<Longrightarrow> i = k"
proof (induction xs arbitrary: i k)
  case Nil
  then show ?case by simp
next
  case (Cons y ys)
  show ?case
  proof (cases "y = x")
    case True
    with Cons.prems(1) have "count_list ys x = 0" by simp
    then have notin: "x \<notin> set ys" by (simp add: count_list_0_iff)
    have "i = 0"
    proof (rule ccontr)
      assume "i \<noteq> 0"
      then obtain i' where "i = Suc i'" by (cases i) auto
      with Cons.prems(2,4) have "ys ! i' = x" "i' < length ys" by simp_all
      with notin show False by (metis nth_mem)
    qed
    moreover have "k = 0"
    proof (rule ccontr)
      assume "k \<noteq> 0"
      then obtain k' where "k = Suc k'" by (cases k) auto
      with Cons.prems(3,5) have "ys ! k' = x" "k' < length ys" by simp_all
      with notin show False by (metis nth_mem)
    qed
    ultimately show ?thesis by simp
  next
    case False
    with Cons.prems(1) have c: "count_list ys x = 1" by simp
    from False Cons.prems(4) obtain i' where i: "i = Suc i'" by (cases i) auto
    from False Cons.prems(5) obtain k' where k: "k = Suc k'" by (cases k) auto
    have "i' = k'"
      using Cons.IH [OF c, of i' k'] Cons.prems(2-5) i k by simp
    then show ?thesis using i k by simp
  qed
qed

lemma is_onehot_row_onehot_row: "j < 130 \<Longrightarrow> is_onehot_row (onehot_row j)"
  by (auto simp: is_onehot_row_def length_onehot_row count_onehot_row list_all_length nth_onehot_row)

lemma is_onehot_rowD:
  assumes "is_onehot_row r"
  shows "\<exists>j<130. r = onehot_row j"
proof -
  from assms have len: "length r = 130" and bin: "\<forall>k<130. r ! k = 0 \<or> r ! k = 1"
    and cnt: "count_list r 1 = 1"
    by (auto simp: is_onehot_row_def list_all_length)
  from cnt have "1 \<in> set r" using count_list_0_iff [of r 1] by auto
  then obtain j where j: "j < 130" "r ! j = 1" using len by (auto simp: in_set_conv_nth)
  have "r = onehot_row j"
  proof (rule nth_equalityI)
    show "length r = length (onehot_row j)" using len by (simp add: length_onehot_row)
  next
    fix k assume "k < length r"
    then have k: "k < 130" using len by simp
    show "r ! k = onehot_row j ! k"
    proof (cases "k = j")
      case True
      then show ?thesis using j k by (simp add: nth_onehot_row)
    next
      case False
      have "r ! k \<noteq> 1"
      proof
        assume "r ! k = 1"
        then have "k = j" using count_list_one_unique [OF cnt, of k j] k j len by simp
        with False show False by simp
      qed
      with bin k have "r ! k = 0" by auto
      then show ?thesis using False k by (simp add: nth_onehot_row)
    qed
  qed
  with j(1) show ?thesis by blast
qed

lemma onehot_to_note_array_rows:
  "\<forall>v\<in>set xs. 0 \<le> v \<and> v \<le> 129 \<Longrightarrow>
   onehot_to_note_array (map (\<lambda>v. onehot_row (wrap v)) xs) = xs"
proof (induction xs)
  case Nil
  show ?case by (simp add: onehot_to_note_array_def)
next
  case (Cons x xs)
  then have "wrap x < 130" "int (wrap x) = x" by (simp_all add: wrap_less wrap_token)
  then have "int (argmax (onehot_row (wrap x))) = x" by (simp add: argmax_onehot_row)
  then show ?case using Cons by (simp add: onehot_to_note_array_def)
qed

lemma pianoroll_rows:
  "list_all is_onehot_row m \<Longrightarrow>
   (\<forall>v\<in>set (onehot_to_note_array m). 0 \<le> v \<and> v \<le> 129) \<and>
   map (\<lambda>v. onehot_row (wrap v)) (onehot_to_note_array m) = m"
proof (induction m)
  case Nil
  show ?case by (simp add: onehot_to_note_array_def)
next
  case (Cons r m)
  then obtain j where j: "j < 130" "r = onehot_row j" using is_onehot_rowD [of r] by auto
  then have a: "argmax r = j" by (simp add: argmax_onehot_row)
  have "wrap (int j) = j" by (simp add: wrap_def)
  then show ?case using Cons j a by (simp add: onehot_to_note_array_def)
qed

text \<open>
  C2. Encoding a note array of 32 integer tokens in 0..129 gives a PianoRoll, and taking
  the arg-max of every row gives the tokens back. Conversely every PianoRoll (32 rows of
  130 entries, each 0 or 1, exactly one 1 per row) is the encoding of the note array its
  rows' arg-max gives, which has 32 tokens in 0..129. The two transforms are inverse
  bijections between valid note arrays and PianoRolls.
\<close>

theorem pianoroll_roundtrip:
  "(int_values note_array = Some x \<and> length x = 32 \<and> (\<forall>v\<in>set x. 0 \<le> v \<and> v \<le> 129) \<longrightarrow>
      (\<exists>pr. note_array_to_onehot note_array = Inr pr \<and> is_pianoroll pr \<and>
         onehot_to_note_array pr = x)) \<and>
   (is_pianoroll m \<longrightarrow>
      length (onehot_to_note_array m) = 32 \<and>
      (\<forall>v\<in>set (onehot_to_note_array m). 0 \<le> v \<and> v \<le> 129) \<and>
      note_array_to_onehot (int64_array (onehot_to_note_array m)) = Inr m)"
proof (intro conjI impI)
  assume x: "int_values note_array = Some x \<and> length x = 32 \<and> (\<forall>v\<in>set x. 0 \<le> v \<and> v \<le> 129)"
  let ?pr = "map (\<lambda>v. onehot_row (wrap v)) x"
  have "\<forall>v\<in>set x. - 130 \<le> v \<and> v \<le> 129" using x by auto
  with x have enc: "note_array_to_onehot note_array = Inr ?pr" by (intro onehot_accepts) simp
  have "list_all is_onehot_row ?pr"
    using x by (auto simp: list_all_iff intro!: is_onehot_row_onehot_row wrap_less)
  then have "is_pianoroll ?pr" using x by (simp add: is_pianoroll_def)
  moreover have "onehot_to_note_array ?pr = x" using x by (simp add: onehot_to_note_array_rows)
  ultimately show "\<exists>pr. note_array_to_onehot note_array = Inr pr \<and> is_pianoroll pr \<and>
      onehot_to_note_array pr = x"
    using enc by blast
next
  assume m: "is_pianoroll m"
  then show "length (onehot_to_note_array m) = 32"
    by (simp add: is_pianoroll_def onehot_to_note_array_def)
next
  assume m: "is_pianoroll m"
  then show "\<forall>v\<in>set (onehot_to_note_array m). 0 \<le> v \<and> v \<le> 129"
    using pianoroll_rows [of m] by (simp add: is_pianoroll_def)
next
  assume m: "is_pianoroll m"
  then have rows: "list_all is_onehot_row m" by (simp add: is_pianoroll_def)
  have "\<forall>v\<in>set (onehot_to_note_array m). - 130 \<le> v \<and> v \<le> 129"
    using pianoroll_rows [OF rows] by auto
  then have "note_array_to_onehot (int64_array (onehot_to_note_array m)) =
      Inr (map (\<lambda>v. onehot_row (wrap v)) (onehot_to_note_array m))"
    by (rule onehot_int64_array)
  then show "note_array_to_onehot (int64_array (onehot_to_note_array m)) = Inr m"
    using pianoroll_rows [OF rows] by simp
qed

theorem pianoroll_roundtrip_witness:
  "(\<exists>pr. note_array_to_onehot (int64_array x1) = Inr pr \<and> is_pianoroll pr \<and>
      onehot_to_note_array pr = x1) \<and>
   onehot_to_note_array (map onehot_row [0, 5, 129, 128] @ replicate 28 (onehot_row 60)) =
     [0, 5, 129, 128] @ replicate 28 60 \<and>
   note_array_to_onehot (int64_array ([0, 5, 129, 128] @ replicate 28 60)) =
     Inr (map onehot_row [0, 5, 129, 128] @ replicate 28 (onehot_row 60))"
proof -
  let ?m = "map onehot_row [0, 5, 129, 128] @ replicate 28 (onehot_row 60)"
  have m: "is_pianoroll ?m"
    by (simp add: is_pianoroll_def is_onehot_row_onehot_row list_all_iff)
  have dec: "onehot_to_note_array ?m = [0, 5, 129, 128] @ replicate 28 60"
    by (simp add: onehot_to_note_array_def argmax_onehot_row)
  show ?thesis
    using pianoroll_roundtrip [of "int64_array x1" x1 ?m] x1_array x1_valid m dec by simp
qed

section \<open>Properties of the MIDI export\<close>

lemma export_midi:
  "generate_midi_with_melody_chord fn mel_notes c_notes fs =
     midi_write \<lparr>instruments = [\<lparr>program = 0, notes_list = mel_notes\<rparr>,
                                \<lparr>program = 0, notes_list = c_notes\<rparr>]\<rparr> fn fs"
  by (simp add: generate_midi_with_melody_chord_def PrettyMIDI_def Instrument_def)

lemma export_instruments_ok:
  "list_ex (\<lambda>ins. \<not> instrument_ok ins)
     [\<lparr>program = 0, notes_list = mel_notes\<rparr>, \<lparr>program = 0, notes_list = c_notes\<rparr>] \<longleftrightarrow>
   \<not> list_all note_ok (mel_notes @ c_notes)"
  by (auto simp: instrument_ok_def data_byte_def)

text \<open>
  C9 says that every export call writes one MIDI file. A call with a note of pitch 128
  raises ValueError, and a call with a path in a directory that does not exist raises
  OSError; neither writes a file.
\<close>

theorem export_fails_without_file:
  "generate_midi_with_melody_chord ''./demo/ec2vae-recon.mid''
     [\<lparr>pitch = 128, start_seconds = 0, end_seconds = 1, velocity = 100\<rparr>] [] empty_fs =
     (Inl ValueError, empty_fs) \<and>
   generate_midi_with_melody_chord ''./demo/ec2vae-recon.mid''
     [\<lparr>pitch = 64, start_seconds = 0, end_seconds = 1, velocity = 100\<rparr>] [] no_demo_fs =
     (Inl OSError, no_demo_fs) \<and>
   files empty_fs ''./demo/ec2vae-recon.mid'' = None \<and>
   files no_demo_fs ''./demo/ec2vae-recon.mid'' = None"
  by (simp add: export_midi midi_write_def instrument_ok_def note_ok_def data_byte_def
      empty_fs_def no_demo_fs_def)

text \<open>
  C9, as the code has it. An export call whose notes all have pitch and velocity in 0..127
  and whose path can be opened writes one MIDI object under the path it is given and
  leaves every other path as it was; the object holds exactly two instruments, the first
  with the melody notes and the second with the chord notes, both with program number 0.
  A call with a note outside 0..127 raises ValueError, a call with good notes and a path
  that cannot be opened raises OSError, and both leave the file system as it was.
\<close>

theorem generate_midi_with_melody_chord_writes:
  "(list_all note_ok (mel_notes @ c_notes) \<and> can_open fs fn \<longrightarrow>
      generate_midi_with_melody_chord fn mel_notes c_notes fs =
        (Inr (), fs\<lparr>files := (files fs)(fn \<mapsto>
           \<lparr>instruments = [\<lparr>program = 0, notes_list = mel_notes\<rparr>,
                            \<lparr>program = 0, notes_list = c_notes\<rparr>]\<rparr>)\<rparr>)) \<and>
   (\<not> list_all note_ok (mel_notes @ c_notes) \<longrightarrow>
      generate_midi_with_melody_chord fn mel_notes c_notes fs = (Inl ValueError, fs)) \<and>
   (list_all note_ok (mel_notes @ c_notes) \<and> \<not> can_open fs fn \<longrightarrow>
      generate_midi_with_melody_chord fn mel_notes c_notes fs = (Inl OSError, fs))"
proof -
  let ?midi = "\<lparr>instruments = [\<lparr>program = 0, notes_list = mel_notes\<rparr>,
                                \<lparr>program = 0, notes_list = c_notes\<rparr>]\<rparr>"
  have bad: "list_ex (\<lambda>ins. \<not> instrument_ok ins) (instruments ?midi) \<longleftrightarrow>
      \<not> list_all note_ok (mel_notes @ c_notes)"
    using export_instruments_ok [of mel_notes c_notes] by simp
  show ?thesis
    unfolding export_midi midi_write_def bad by simp
qed

theorem generate_midi_with_melody_chord_writes_witness:
  "generate_midi_with_melody_chord ''./demo/ec2vae-recon.mid''
     [\<lparr>pitch = 64, start_seconds = 0, end_seconds = 3 / 8, velocity = 100\<rparr>]
     [\<lparr>pitch = 48, start_seconds = 0, end_seconds = 2, velocity = 100\<rparr>] empty_fs =
     (Inr (), empty_fs\<lparr>files := (files empty_fs)(''./demo/ec2vae-recon.mid'' \<mapsto>
        \<lparr>instruments =
           [\<lparr>program = 0, notes_list =
               [\<lparr>pitch = 64, start_seconds = 0, end_seconds = 3 / 8, velocity = 100\<rparr>]\<rparr>,
            \<lparr>program = 0, notes_list =
               [\<lparr>pitch = 48, start_seconds = 0, end_seconds = 2, velocity = 100\<rparr>]\<rparr>]\<rparr>)\<rparr>) \<and>
   generate_midi_with_melody_chord ''./demo/ec2vae-recon.mid''
     [\<lparr>pitch = 64, start_seconds = 0, end_seconds = 3 / 8, velocity = 128\<rparr>] [] empty_fs =
     (Inl ValueError, empty_fs) \<and>
   generate_midi_with_melody_chord ''./demo/ec2vae-recon.mid''
     [\<lparr>pitch = 64, start_seconds = 0, end_seconds = 3 / 8, velocity = 100\<rparr>] [] no_demo_fs =
     (Inl OSError, no_demo_fs)"
proof -
  let ?fn = "''./demo/ec2vae-recon.mid''"
  let ?mel = "[\<lparr>pitch = 64, start_seconds = 0, end_seconds = 3 / 8, velocity = 100\<rparr>]"
  let ?c = "[\<lparr>pitch = 48, start_seconds = 0, end_seconds = 2, velocity = 100\<rparr>]"
  let ?loud = "[\<lparr>pitch = 64, start_seconds = 0, end_seconds = 3 / 8, velocity = 128\<rparr>]"
  have ok: "list_all note_ok (?mel @ ?c)" "list_all note_ok (?mel @ [])"
    by (simp_all add: note_ok_def data_byte_def)
  have loud: "\<not> list_all note_ok (?loud @ [])" by (simp add: note_ok_def data_byte_def)
  have op: "can_open empty_fs ?fn" "\<not> can_open no_demo_fs ?fn"
    by (simp_all add: empty_fs_def no_demo_fs_def)
  from generate_midi_with_melody_chord_writes [of ?mel ?c empty_fs ?fn] ok(1) op(1)
  have 1: "generate_midi_with_melody_chord ?fn ?mel ?c empty_fs =
      (Inr (), empty_fs\<lparr>files := (files empty_fs)(?fn \<mapsto>
         \<lparr>instruments = [\<lparr>program = 0, notes_list = ?mel\<rparr>,
                          \<lparr>program = 0, notes_list = ?c\<rparr>]\<rparr>)\<rparr>)"
    by blast
  from generate_midi_with_melody_chord_writes [of ?loud "[]" empty_fs ?fn] loud
  have 2: "generate_midi_with_melody_chord ?fn ?loud [] empty_fs = (Inl ValueError, empty_fs)"
    by blast
  from generate_midi_with_melody_chord_writes [of ?mel "[]" no_demo_fs ?fn] ok(2) op(2)
  have 3: "generate_midi_with_melody_chord ?fn ?mel [] no_demo_fs = (Inl OSError, no_demo_fs)"
    by blast
  from 1 2 3 show ?thesis by blast
qed

section \<open>Properties of the melody decoder\<close>

lemma categorize_all_eq:
  "categorize_all ts =
     (if \<forall>v\<in>set ts. 0 \<le> v \<and> v \<le> 129 then Inr (map (\<lambda>t. projr (categorize t)) ts)
      else Inl InvalidToken)"
proof (induction ts)
  case Nil
  show ?case by simp
next
  case (Cons t ts)
  show ?case
  proof (cases "0 \<le> t \<and> t \<le> 129")
    case True
    then have "t \<le> 127 \<or> t = 128 \<or> t = 129" by arith
    then have "\<exists>c. categorize t = Inr c" using True by (auto simp: categorize_def)
    then obtain c where c: "categorize t = Inr c" ..
    show ?thesis using True Cons.IH by (simp add: c)
  next
    case False
    then have "categorize t = Inl InvalidToken" by (auto simp: categorize_def)
    then show ?thesis using False by auto
  qed
qed

lemma length_categorize_all: "categorize_all ts = Inr cs \<Longrightarrow> length cs = length ts"
  by (auto simp: categorize_all_eq split: if_splits)

lemma categorize_all_holds:
  "categorize_all ts = Inr cs \<Longrightarrow>
   categorize_all (replicate k 128 @ ts) = Inr (replicate k Hold @ cs)"
  by (induction k) (auto simp: categorize_def)

lemma categorize_all_rests: "categorize_all (replicate k 129) = Inr (replicate k Rest)"
  by (induction k) (auto simp: categorize_def)

lemma merge_holds: "run_length_merge i None (replicate k Hold @ cs) = run_length_merge (i + k) None cs"
  by (induction k arbitrary: i) auto

lemma merge_rests: "run_length_merge i None (replicate k Rest) = []"
  by (induction k arbitrary: i) auto

lemma length_merge:
  "length (run_length_merge i active cs) \<le> length cs + (case active of None \<Rightarrow> 0 | Some _ \<Rightarrow> 1)"
proof (induction cs arbitrary: i active)
  case Nil
  show ?case by (cases active) auto
next
  case (Cons c cs)
  show ?case
  proof (cases c)
    case (Onset p)
    from Cons [of "Suc i" "Some (p, i)"] show ?thesis
      unfolding Onset by (cases active) auto
  next
    case Hold
    from Cons [of "Suc i" active] show ?thesis unfolding Hold by simp
  next
    case Rest
    from Cons [of "Suc i" None] show ?thesis unfolding Rest by (cases active) auto
  qed
qed

lemma chained_mono: "chained lb rs \<Longrightarrow> lb' \<le> lb \<Longrightarrow> chained lb' rs"
  by (cases rs) auto

lemma chained_merge:
  "(\<And>p s0. active = Some (p, s0) \<Longrightarrow> s0 < i) \<Longrightarrow>
   chained (case active of None \<Rightarrow> i | Some (p, s0) \<Rightarrow> s0) (run_length_merge i active cs)"
proof (induction cs arbitrary: i active)
  case Nil
  then show ?case by (cases active) auto
next
  case (Cons c cs)
  show ?case
  proof (cases c)
    case (Onset p)
    have "chained i (run_length_merge (Suc i) (Some (p, i)) cs)"
      using Cons.IH [of "Some (p, i)" "Suc i"] by simp
    then show ?thesis using Cons.prems unfolding Onset by (cases active) auto
  next
    case Hold
    show ?thesis
    proof (cases active)
      case None
      have "chained (Suc i) (run_length_merge (Suc i) None cs)"
        using Cons.IH [of None "Suc i"] by simp
      then show ?thesis unfolding Hold None by (simp add: chained_mono)
    next
      case (Some a)
      obtain p s0 where a: "a = (p, s0)" by (cases a)
      have "s0 < i" using Cons.prems Some a by simp
      then have "chained s0 (run_length_merge (Suc i) (Some (p, s0)) cs)"
        using Cons.IH [of "Some (p, s0)" "Suc i"] by simp
      then show ?thesis unfolding Hold Some a by simp
    qed
  next
    case Rest
    have "chained (Suc i) (run_length_merge (Suc i) None cs)"
      using Cons.IH [of None "Suc i"] by simp
    then have "chained i (run_length_merge (Suc i) None cs)" by (simp add: chained_mono)
    then show ?thesis using Cons.prems unfolding Rest by (cases active) auto
  qed
qed

lemma chained_bounds:
  "chained lb rs \<Longrightarrow> (p, s, e) \<in> set rs \<Longrightarrow> lb \<le> s \<and> s < e"
proof (induction rs arbitrary: lb)
  case Nil
  then show ?case by simp
next
  case (Cons r rs)
  obtain p' s' e' where r: "r = (p', s', e')" by (cases r)
  from Cons.prems(1) have h: "lb \<le> s'" "s' < e'" "chained e' rs" unfolding r by simp_all
  show ?case
  proof (cases "(p, s, e) = r")
    case True
    then show ?thesis using h r by simp
  next
    case False
    then have "(p, s, e) \<in> set rs" using Cons.prems(2) by simp
    then have "e' \<le> s \<and> s < e" using Cons.IH [OF h(3)] by simp
    then show ?thesis using h by simp
  qed
qed

lemma chained_sorted:
  "chained lb rs \<Longrightarrow> sorted_wrt (\<lambda>a b. snd (snd a) \<le> fst (snd b)) rs"
proof (induction rs arbitrary: lb)
  case Nil
  show ?case by simp
next
  case (Cons r rs)
  obtain p' s' e' where r: "r = (p', s', e')" by (cases r)
  from Cons.prems have h: "chained e' rs" unfolding r by simp
  have "\<forall>b\<in>set rs. e' \<le> fst (snd b)"
    using chained_bounds [OF h] by (metis prod.collapse)
  then show ?case using Cons.IH [OF h] r by simp
qed

lemma step_duration_pos: "0 < bpm \<Longrightarrow> 0 < step_duration bpm"
  by (simp add: step_duration_def)

lemma step_time_mono: "0 < bpm \<Longrightarrow> i \<le> j \<Longrightarrow> step_time bpm start i \<le> step_time bpm start j"
  using step_duration_pos [of bpm] by (simp add: step_time_def mult_right_mono)

lemma step_time_less_iff:
  "0 < bpm \<Longrightarrow> step_time bpm start i < step_time bpm start j \<longleftrightarrow> i < j"
  using step_duration_pos [of bpm] by (simp add: step_time_def)

lemma start_to_note_event: "start_seconds (to_note_event bpm start r) = step_time bpm start (fst (snd r))"
  by (cases r) simp

lemma end_to_note_event: "end_seconds (to_note_event bpm start r) = step_time bpm start (snd (snd r))"
  by (cases r) simp

lemma pitch_to_note_event: "pitch (to_note_event bpm start r) = fst r"
  by (cases r) simp

lemma x1_categories:
  "categorize_all x1 = Inr
     [Onset 64, Hold, Hold, Onset 67, Onset 67, Hold, Hold, Hold,
      Onset 64, Hold, Hold, Onset 62, Onset 60, Hold, Hold, Hold,
      Onset 62, Hold, Hold, Onset 64, Onset 67, Hold, Hold, Onset 64,
      Onset 62, Hold, Hold, Hold, Rest, Rest, Rest, Rest]"
  by (simp add: x1_def categorize_def)

lemma x1_runs:
  "run_length_merge 0 None
     [Onset 64, Hold, Hold, Onset 67, Onset 67, Hold, Hold, Hold,
      Onset 64, Hold, Hold, Onset 62, Onset 60, Hold, Hold, Hold,
      Onset 62, Hold, Hold, Onset 64, Onset 67, Hold, Hold, Onset 64,
      Onset 62, Hold, Hold, Hold, Rest, Rest, Rest, Rest] =
   [(64, 0, 3), (67, 3, 4), (67, 4, 8), (64, 8, 11), (62, 11, 12), (60, 12, 16),
    (62, 16, 19), (64, 19, 20), (67, 20, 23), (64, 23, 24), (62, 24, 28)]"
  by simp

lemma x1_notes:
  "note_array_to_notes x1 120 0 = Inr
     [\<lparr>pitch = 64, start_seconds = 0, end_seconds = 3 / 8\<rparr>,
      \<lparr>pitch = 67, start_seconds = 3 / 8, end_seconds = 1 / 2\<rparr>,
      \<lparr>pitch = 67, start_seconds = 1 / 2, end_seconds = 1\<rparr>,
      \<lparr>pitch = 64, start_seconds = 1, end_seconds = 11 / 8\<rparr>,
      \<lparr>pitch = 62, start_seconds = 11 / 8, end_seconds = 3 / 2\<rparr>,
      \<lparr>pitch = 60, start_seconds = 3 / 2, end_seconds = 2\<rparr>,
      \<lparr>pitch = 62, start_seconds = 2, end_seconds = 19 / 8\<rparr>,
      \<lparr>pitch = 64, start_seconds = 19 / 8, end_seconds = 5 / 2\<rparr>,
      \<lparr>pitch = 67, start_seconds = 5 / 2, end_seconds = 23 / 8\<rparr>,
      \<lparr>pitch = 64, start_seconds = 23 / 8, end_seconds = 3\<rparr>,
      \<lparr>pitch = 62, start_seconds = 3, end_seconds = 7 / 2\<rparr>]"
proof -
  have len: "length x1 = 32" using x1_valid by simp
  show ?thesis
    unfolding note_array_to_notes_def x1_categories x1_runs
    by (simp add: len step_time_def step_duration_def)
qed

lemma x1_runs_idem:
  "run_length_merge_idem 0 None
     [Onset 64, Hold, Hold, Onset 67, Onset 67, Hold, Hold, Hold,
      Onset 64, Hold, Hold, Onset 62, Onset 60, Hold, Hold, Hold,
      Onset 62, Hold, Hold, Onset 64, Onset 67, Hold, Hold, Onset 64,
      Onset 62, Hold, Hold, Hold, Rest, Rest, Rest, Rest] =
   [(64, 0, 3), (67, 3, 8), (64, 8, 11), (62, 11, 12), (60, 12, 16),
    (62, 16, 19), (64, 19, 20), (67, 20, 23), (64, 23, 24), (62, 24, 28)]"
  by simp

lemma x1_notes_idem:
  "note_array_to_notes_idem x1 120 0 = Inr
     [\<lparr>pitch = 64, start_seconds = 0, end_seconds = 3 / 8\<rparr>,
      \<lparr>pitch = 67, start_seconds = 3 / 8, end_seconds = 1\<rparr>,
      \<lparr>pitch = 64, start_seconds = 1, end_seconds = 11 / 8\<rparr>,
      \<lparr>pitch = 62, start_seconds = 11 / 8, end_seconds = 3 / 2\<rparr>,
      \<lparr>pitch = 60, start_seconds = 3 / 2, end_seconds = 2\<rparr>,
      \<lparr>pitch = 62, start_seconds = 2, end_seconds = 19 / 8\<rparr>,
      \<lparr>pitch = 64, start_seconds = 19 / 8, end_seconds = 5 / 2\<rparr>,
      \<lparr>pitch = 67, start_seconds = 5 / 2, end_seconds = 23 / 8\<rparr>,
      \<lparr>pitch = 64, start_seconds = 23 / 8, end_seconds = 3\<rparr>,
      \<lparr>pitch = 62, start_seconds = 3, end_seconds = 7 / 2\<rparr>]"
proof -
  have len: "length x1 = 32" using x1_valid by simp
  show ?thesis
    unfolding note_array_to_notes_idem_def x1_categories x1_runs_idem
    by (simp add: len step_time_def step_duration_def)
qed

text \<open>
  The two readings on the constant melody \<^verbatim>\<open>x2\<close>, 32 copies of pitch 60, at 120 bpm:
  section 8 expects one event of four seconds, which the second reading gives; the scan of
  section 4.2 gives 32 events.
\<close>

lemma categorize_all_onsets:
  "0 \<le> p \<Longrightarrow> p \<le> 127 \<Longrightarrow> categorize_all (replicate k p) = Inr (replicate k (Onset p))"
  by (induction k) (auto simp: categorize_def)

lemma merge_idem_repeated:
  "run_length_merge_idem i (Some (p, s)) (replicate k (Onset p)) = [(p, s, i + k)]"
  by (induction k arbitrary: i) auto

lemma merge_repeated:
  "length (run_length_merge i (Some (p, s)) (replicate k (Onset p))) = Suc k"
  by (induction k arbitrary: i s) auto

lemma x2_notes_two_readings:
  "note_array_to_notes_idem x2 120 0 =
     Inr [\<lparr>pitch = 60, start_seconds = 0, end_seconds = 4\<rparr>] \<and>
   map_sum id length (note_array_to_notes x2 120 0) = Inr 32"
proof -
  have split: "replicate 32 c = c # replicate 31 c" for c :: category
    using replicate_Suc [of 31 c] by simp
  have cat: "categorize_all (replicate 32 60) = Inr (replicate 32 (Onset 60))"
    by (rule categorize_all_onsets) simp_all
  have 1: "run_length_merge_idem 0 None (replicate 32 (Onset 60)) = [(60, 0, 32)]"
    unfolding split by (simp add: merge_idem_repeated)
  have 2: "length (run_length_merge 0 None (replicate 32 (Onset 60))) = 32"
    unfolding split by (simp add: merge_repeated)
  show ?thesis
    by (simp add: note_array_to_notes_idem_def note_array_to_notes_def x2_def cat 1 2
        step_time_def step_duration_def)
qed

text \<open>
  C5 says that the example melody \<^verbatim>\<open>x1\<close> at 120 bpm from offset 0 decodes to exactly 8
  events. The melody has 11 onset tokens. When each onset begins a run of its own (section
  4.2) the decoder returns 11 events; when an onset that repeats the active pitch extends
  its run (the reading of section 8) the two consecutive onsets of pitch 67 make one run
  and it returns 10. In neither reading does it return 8.
\<close>

theorem x1_does_not_decode_to_eight_notes:
  "map_sum id length (note_array_to_notes x1 120 0) = Inr 11 \<and>
   map_sum id length (note_array_to_notes_idem x1 120 0) = Inr 10"
  by (simp add: x1_notes x1_notes_idem)

text \<open>
  C5, as the decoder has it. The example melody at 120 bpm from offset 0 decodes to exactly
  11 events, of pitches 64, 67, 67, 64, 62, 60, 62, 64, 67, 64, 62, when each onset begins
  a run of its own, and to exactly 10, of pitches 64, 67, 64, 62, 60, 62, 64, 67, 64, 62,
  when an onset that repeats the active pitch extends its run. In both readings the first
  event has pitch 64, starts at 0.0 s and ends at 0.375 s, three steps of 0.125 s, and the
  four trailing rests produce no event, the last event ending at step 28.
\<close>

theorem x1_notes_count_and_first:
  "\<exists>es es'. note_array_to_notes x1 120 0 = Inr es \<and> length es = 11 \<and>
     map pitch es = [64, 67, 67, 64, 62, 60, 62, 64, 67, 64, 62] \<and>
     es ! 0 = \<lparr>pitch = 64, start_seconds = 0, end_seconds = 0.375\<rparr> \<and>
     end_seconds (last es) = step_time 120 0 28 \<and>
     note_array_to_notes_idem x1 120 0 = Inr es' \<and> length es' = 10 \<and>
     map pitch es' = [64, 67, 64, 62, 60, 62, 64, 67, 64, 62] \<and>
     es' ! 0 = \<lparr>pitch = 64, start_seconds = 0, end_seconds = 0.375\<rparr> \<and>
     end_seconds (last es') = step_time 120 0 28 \<and>
     step_duration 120 = 0.125"
  by (simp add: x1_notes x1_notes_idem step_time_def step_duration_def)

text \<open>
  C6. For 32 tokens in 0..129 and a positive tempo the decoder returns at most 32 events;
  every event ends after it starts, and of any two events the earlier in the list ends no
  later than the other starts and starts strictly before it: the events do not overlap and
  are listed in onset order. For 32 rests it returns no event.
\<close>

theorem note_array_to_notes_ordered:
  "(length note_array = 32 \<and> (\<forall>v\<in>set note_array. 0 \<le> v \<and> v \<le> 129) \<and> 0 < bpm \<longrightarrow>
      (\<exists>es. note_array_to_notes note_array bpm start = Inr es \<and> length es \<le> 32 \<and>
         (\<forall>e\<in>set es. start_seconds e < end_seconds e) \<and>
         (\<forall>i j. i < j \<and> j < length es \<longrightarrow>
            end_seconds (es ! i) \<le> start_seconds (es ! j) \<and>
            start_seconds (es ! i) < start_seconds (es ! j)))) \<and>
   note_array_to_notes (replicate 32 129) bpm start = Inr []"
proof (intro conjI impI)
  assume h: "length note_array = 32 \<and> (\<forall>v\<in>set note_array. 0 \<le> v \<and> v \<le> 129) \<and> 0 < bpm"
  then have len: "length note_array = 32" and bpm: "0 < bpm" by simp_all
  let ?cs = "map (\<lambda>t. projr (categorize t)) note_array"
  let ?rs = "run_length_merge 0 None ?cs"
  let ?es = "map (to_note_event bpm start) ?rs"
  have cat: "categorize_all note_array = Inr ?cs" using h by (simp add: categorize_all_eq)
  have dec: "note_array_to_notes note_array bpm start = Inr ?es"
    by (simp add: note_array_to_notes_def len cat)
  have n: "length ?es \<le> 32" using length_merge [of 0 None ?cs] len by simp
  have ch: "chained 0 ?rs" using chained_merge [of None 0 ?cs] by simp
  have pos: "\<forall>e\<in>set ?es. start_seconds e < end_seconds e"
  proof
    fix e assume "e \<in> set ?es"
    then obtain r where r: "r \<in> set ?rs" "e = to_note_event bpm start r" by auto
    obtain p s t where prs: "r = (p, s, t)" by (cases r)
    have "s < t" using chained_bounds [OF ch] r(1) prs by blast
    then show "start_seconds e < end_seconds e"
      using bpm r(2) prs by (simp add: step_time_less_iff)
  qed
  have srt: "sorted_wrt (\<lambda>a b. snd (snd a) \<le> fst (snd b)) ?rs" using ch by (rule chained_sorted)
  have ord: "end_seconds (?es ! i) \<le> start_seconds (?es ! j) \<and>
      start_seconds (?es ! i) < start_seconds (?es ! j)" if ij: "i < j \<and> j < length ?es" for i j
  proof -
    from ij have i: "i < length ?rs" and j: "j < length ?rs" and lt: "i < j" by simp_all
    have le: "snd (snd (?rs ! i)) \<le> fst (snd (?rs ! j))"
      using srt lt j by (simp add: sorted_wrt_iff_nth_less)
    have "?rs ! i \<in> set ?rs" using i by simp
    then have lt2: "fst (snd (?rs ! i)) < snd (snd (?rs ! i))"
      using chained_bounds [OF ch, of "fst (?rs ! i)" "fst (snd (?rs ! i))" "snd (snd (?rs ! i))"]
      by simp
    have "end_seconds (?es ! i) \<le> start_seconds (?es ! j)"
      using i j le bpm by (simp add: start_to_note_event end_to_note_event step_time_mono)
    moreover have "start_seconds (?es ! i) < start_seconds (?es ! j)"
      using i j le lt2 bpm by (simp add: start_to_note_event step_time_less_iff)
    ultimately show ?thesis ..
  qed
  show "\<exists>es. note_array_to_notes note_array bpm start = Inr es \<and> length es \<le> 32 \<and>
         (\<forall>e\<in>set es. start_seconds e < end_seconds e) \<and>
         (\<forall>i j. i < j \<and> j < length es \<longrightarrow>
            end_seconds (es ! i) \<le> start_seconds (es ! j) \<and>
            start_seconds (es ! i) < start_seconds (es ! j))"
    using dec n pos ord by blast
next
  show "note_array_to_notes (replicate 32 129) bpm start = Inr []"
    by (simp add: note_array_to_notes_def categorize_all_rests merge_rests)
qed

theorem note_array_to_notes_ordered_witness:
  "\<exists>es. note_array_to_notes x1 120 0 = Inr es \<and> length es \<le> 32 \<and>
     list_all (\<lambda>e. start_seconds e < end_seconds e) es \<and>
     end_seconds (es ! 0) \<le> start_seconds (es ! 1) \<and>
     start_seconds (es ! 0) < start_seconds (es ! 1)"
proof -
  have h: "length x1 = 32 \<and> (\<forall>v\<in>set x1. 0 \<le> v \<and> v \<le> 129) \<and> (0::real) < 120"
    using x1_valid by simp
  obtain es where es: "note_array_to_notes x1 120 0 = Inr es" "length es \<le> 32"
      "\<forall>e\<in>set es. start_seconds e < end_seconds e"
      "\<forall>i j. i < j \<and> j < length es \<longrightarrow>
            end_seconds (es ! i) \<le> start_seconds (es ! j) \<and>
            start_seconds (es ! i) < start_seconds (es ! j)"
    using note_array_to_notes_ordered [of x1 120 0] h by blast
  have "1 < length es" using es(1) by (auto simp: x1_notes)
  then have "end_seconds (es ! 0) \<le> start_seconds (es ! 1) \<and>
      start_seconds (es ! 0) < start_seconds (es ! 1)"
    using es(4) by simp
  then show ?thesis using es(1-3) by (auto simp: list_all_iff)
qed

text \<open>
  C8. A sequence of 32 tokens in 0..129 that begins with \<open>k\<close> holds, \<open>k\<close> at least 1, is
  decoded without error, and the result is the one the scan gives on the remaining tokens
  when it starts at step \<open>k\<close> with no active pitch: the leading holds change nothing, and
  no run begins before step \<open>k\<close>.
\<close>

theorem leading_holds_are_noops:
  assumes "0 < k" and "k + length rest = 32" and "\<forall>v\<in>set rest. 0 \<le> v \<and> v \<le> 129"
  shows "\<exists>cs. categorize_all rest = Inr cs \<and>
           note_array_to_notes (replicate k 128 @ rest) bpm start =
             Inr (map (to_note_event bpm start) (run_length_merge k None cs)) \<and>
           (\<forall>r\<in>set (run_length_merge k None cs). k \<le> fst (snd r))"
proof -
  let ?cs = "map (\<lambda>t. projr (categorize t)) rest"
  have cat: "categorize_all rest = Inr ?cs" using assms(3) by (simp add: categorize_all_eq)
  have "categorize_all (replicate k 128 @ rest) = Inr (replicate k Hold @ ?cs)"
    using cat by (rule categorize_all_holds)
  then have dec: "note_array_to_notes (replicate k 128 @ rest) bpm start =
      Inr (map (to_note_event bpm start) (run_length_merge k None ?cs))"
    using assms(2) by (simp add: note_array_to_notes_def merge_holds)
  have ch: "chained k (run_length_merge k None ?cs)"
    using chained_merge [of None k ?cs] by simp
  have "\<forall>r\<in>set (run_length_merge k None ?cs). k \<le> fst (snd r)"
    using chained_bounds [OF ch] by (metis prod.collapse)
  with cat dec show ?thesis by blast
qed

theorem leading_holds_are_noops_witness:
  "note_array_to_notes (replicate 3 128 @ [60, 128, 129] @ replicate 26 129) 120 0 =
     Inr [\<lparr>pitch = 60, start_seconds = 3 / 8, end_seconds = 5 / 8\<rparr>]"
proof -
  let ?rest = "[60, 128, 129] @ replicate 26 129"
  have h: "(0::nat) < 3" "3 + length ?rest = 32" "\<forall>v\<in>set ?rest. 0 \<le> v \<and> v \<le> (129::int)"
    by simp_all
  have cat: "categorize_all ?rest = Inr ([Onset 60, Hold, Rest] @ replicate 26 Rest)"
    using categorize_all_rests [of 26] by (simp add: categorize_def)
  have runs: "run_length_merge 3 None ([Onset 60, Hold, Rest] @ replicate 26 Rest) = [(60, 3, 5)]"
    by (simp add: merge_rests)
  from leading_holds_are_noops [OF h, of 120 0] cat runs show ?thesis
    by (simp add: step_time_def step_duration_def)
qed

section \<open>Properties of the chord decoder\<close>

lemma leading_run_length:
  "b \<le> length xs \<and> (\<forall>t<b. xs ! t) \<and> (b = length xs \<or> \<not> xs ! b) \<longleftrightarrow>
   b = length (takeWhile (\<lambda>v. v) xs)"
proof (induction xs arbitrary: b)
  case Nil
  show ?case by auto
next
  case (Cons x xs)
  show ?case
  proof (cases b)
    case 0
    then show ?thesis by auto
  next
    case (Suc b')
    have "(\<forall>t<Suc b'. (x # xs) ! t) \<longleftrightarrow> x \<and> (\<forall>t<b'. xs ! t)"
      by (auto simp: less_Suc_eq_0_disj)
    then show ?thesis using Cons [of b'] Suc by auto
  qed
qed

lemma sounding_block_Nil: "\<not> sounding_block prev [] a b"
  by (simp add: sounding_block_def)

lemma sounding_block_Cons:
  "sounding_block prev (x # xs) a b \<longleftrightarrow>
     (a = 0 \<and> \<not> prev \<and> x \<and> b = Suc (length (takeWhile (\<lambda>v. v) xs))) \<or>
     (0 < a \<and> sounding_block x xs (a - 1) (b - 1))"
proof (cases b)
  case 0
  then show ?thesis by (simp add: sounding_block_def)
next
  case b: (Suc b')
  show ?thesis
  proof (cases a)
    case 0
    have "(\<forall>t\<in>{0..<Suc b'}. (x # xs) ! t) \<longleftrightarrow> (\<forall>t<Suc b'. (x # xs) ! t)"
      by (simp add: Ball_def)
    also have "\<dots> \<longleftrightarrow> x \<and> (\<forall>t<b'. xs ! t)"
      by (auto simp: less_Suc_eq_0_disj)
    finally have all: "(\<forall>t\<in>{0..<Suc b'}. (x # xs) ! t) \<longleftrightarrow> x \<and> (\<forall>t<b'. xs ! t)" .
    have "sounding_block prev (x # xs) 0 (Suc b') \<longleftrightarrow>
        \<not> prev \<and> x \<and> (b' \<le> length xs \<and> (\<forall>t<b'. xs ! t) \<and> (b' = length xs \<or> \<not> xs ! b'))"
      unfolding sounding_block_def all by auto
    then show ?thesis unfolding 0 b leading_run_length by simp
  next
    case a: (Suc a')
    have all: "(\<forall>t\<in>{Suc a'..<Suc b'}. (x # xs) ! t) \<longleftrightarrow> (\<forall>t\<in>{a'..<b'}. xs ! t)"
    proof
      assume l: "\<forall>t\<in>{Suc a'..<Suc b'}. (x # xs) ! t"
      show "\<forall>t\<in>{a'..<b'}. xs ! t"
      proof
        fix t assume "t \<in> {a'..<b'}"
        then have "Suc t \<in> {Suc a'..<Suc b'}" by simp
        with l have "(x # xs) ! Suc t" by blast
        then show "xs ! t" by simp
      qed
    next
      assume r: "\<forall>t\<in>{a'..<b'}. xs ! t"
      show "\<forall>t\<in>{Suc a'..<Suc b'}. (x # xs) ! t"
      proof
        fix t assume t: "t \<in> {Suc a'..<Suc b'}"
        then obtain t' where t': "t = Suc t'" by (cases t) auto
        with t have "t' \<in> {a'..<b'}" by simp
        with r have "xs ! t'" by blast
        then show "(x # xs) ! t" using t' by simp
      qed
    qed
    have prevcell: "(x # xs) ! a' = (if a' = 0 then x else xs ! (a' - 1))"
      by (simp add: nth_Cons')
    have "sounding_block prev (x # xs) (Suc a') (Suc b') \<longleftrightarrow> sounding_block x xs a' b'"
      unfolding sounding_block_def all by (simp add: prevcell)
    then show ?thesis unfolding a b by simp
  qed
qed

lemma block_nonempty: "sounding_block prev col a b \<Longrightarrow> a < b"
  by (simp add: sounding_block_def)

lemma class_runs_iff:
  "(p, s, e) \<in> set (run_length_merge i (if prev then Some (P, s0) else None)
                      (chroma_categories P prev col)) \<longleftrightarrow>
   p = P \<and> ((i \<le> s \<and> sounding_block prev col (s - i) (e - i)) \<or>
            (prev \<and> s = s0 \<and> e = i + length (takeWhile (\<lambda>v. v) col)))"
proof (induction col arbitrary: i prev s0)
  case Nil
  show ?case by (auto simp: sounding_block_Nil)
next
  case (Cons x xs)
  have shift: "s - i - 1 = s - Suc i" "e - i - 1 = e - Suc i" by simp_all
  have pos: "i \<le> s \<and> 0 < s - i \<longleftrightarrow> Suc i \<le> s" by arith
  show ?case
  proof (cases x)
    case True
    show ?thesis
    proof (cases prev)
      case p: True
      have "(p, s, e) \<in> set (run_length_merge i (Some (P, s0)) (chroma_categories P True (True # xs)))
          \<longleftrightarrow> p = P \<and> ((Suc i \<le> s \<and> sounding_block True xs (s - Suc i) (e - Suc i)) \<or>
            (s = s0 \<and> e = Suc i + length (takeWhile (\<lambda>v. v) xs)))"
        using Cons [of "Suc i" True s0] by simp
      also have "\<dots> \<longleftrightarrow> p = P \<and> ((i \<le> s \<and> sounding_block True (True # xs) (s - i) (e - i)) \<or>
            (s = s0 \<and> e = i + length (takeWhile (\<lambda>v. v) (True # xs))))"
        using pos by (simp add: sounding_block_Cons shift) blast
      finally show ?thesis using True p by simp
    next
      case p: False
      have "(p, s, e) \<in> set (run_length_merge i None (chroma_categories P False (True # xs)))
          \<longleftrightarrow> p = P \<and> ((Suc i \<le> s \<and> sounding_block True xs (s - Suc i) (e - Suc i)) \<or>
            (s = i \<and> e = Suc i + length (takeWhile (\<lambda>v. v) xs)))"
        using Cons [of "Suc i" True i] by simp
      also have "\<dots> \<longleftrightarrow> p = P \<and> (i \<le> s \<and> sounding_block False (True # xs) (s - i) (e - i))"
      proof -
        have "s = i \<and> e = Suc i + length (takeWhile (\<lambda>v. v) xs) \<longleftrightarrow>
            i \<le> s \<and> s - i = 0 \<and> e - i = Suc (length (takeWhile (\<lambda>v. v) xs))"
          by arith
        then show ?thesis using pos by (simp add: sounding_block_Cons shift) blast
      qed
      finally show ?thesis using True p by simp
    qed
  next
    case False
    have tail: "(p, s, e) \<in> set (run_length_merge (Suc i) None (chroma_categories P False xs))
        \<longleftrightarrow> p = P \<and> Suc i \<le> s \<and> sounding_block False xs (s - Suc i) (e - Suc i)"
      using Cons [of "Suc i" False s0] by simp
    have blk: "i \<le> s \<and> sounding_block prev (False # xs) (s - i) (e - i) \<longleftrightarrow>
        Suc i \<le> s \<and> sounding_block False xs (s - Suc i) (e - Suc i)"
      using pos by (simp add: sounding_block_Cons shift) blast
    show ?thesis
    proof (cases prev)
      case p: True
      show ?thesis using False p tail blk by auto
    next
      case p: False
      show ?thesis using False p tail blk by auto
    qed
  qed
qed

lemma chained_distinct: "chained lb rs \<Longrightarrow> distinct rs"
proof (induction rs arbitrary: lb)
  case Nil
  show ?case by simp
next
  case (Cons r rs)
  obtain p s e where r: "r = (p, s, e)" by (cases r)
  from Cons.prems have h: "s < e" "chained e rs" unfolding r by simp_all
  have "r \<notin> set rs"
  proof
    assume "r \<in> set rs"
    then have "e \<le> s" using chained_bounds [OF h(2), of p s e] r by simp
    with h(1) show False by simp
  qed
  then show ?case using Cons.IH [OF h(2)] by simp
qed

lemma blocks_overlap_equal:
  assumes "sounding_block prev col a b" and "sounding_block prev col a' b'"
    and "a' < b" and "a < b'"
  shows "a' = a \<and> b' = b"
proof -
  from assms(1) have 1: "a < b" "b \<le> length col" "\<forall>t\<in>{a..<b}. col ! t"
      "a \<noteq> 0 \<longrightarrow> \<not> col ! (a - 1)" "b = length col \<or> \<not> col ! b"
    by (auto simp: sounding_block_def split: if_splits)
  from assms(2) have 2: "a' < b'" "b' \<le> length col" "\<forall>t\<in>{a'..<b'}. col ! t"
      "a' \<noteq> 0 \<longrightarrow> \<not> col ! (a' - 1)" "b' = length col \<or> \<not> col ! b'"
    by (auto simp: sounding_block_def split: if_splits)
  have a: "a' = a"
  proof (rule ccontr)
    assume ne: "a' \<noteq> a"
    show False
    proof (cases "a < a'")
      case True
      then have "a' - 1 \<in> {a..<b}" using assms(3) by auto
      then have "col ! (a' - 1)" using 1(3) by blast
      moreover have "a' \<noteq> 0" using True by simp
      ultimately show False using 2(4) by simp
    next
      case False
      then have lt: "a' < a" using ne by simp
      then have "a - 1 \<in> {a'..<b'}" using assms(4) by auto
      then have "col ! (a - 1)" using 2(3) by blast
      moreover have "a \<noteq> 0" using lt by simp
      ultimately show False using 1(4) by simp
    qed
  qed
  have b: "b' = b"
  proof (rule ccontr)
    assume ne: "b' \<noteq> b"
    show False
    proof (cases "b < b'")
      case True
      then have "b \<in> {a'..<b'}" using 1(1) a by auto
      then have "col ! b" using 2(3) by blast
      moreover have "b \<noteq> length col" using True 2(2) by simp
      ultimately show False using 1(5) by simp
    next
      case False
      then have lt: "b' < b" using ne by simp
      then have "b' \<in> {a..<b}" using 2(1) a by auto
      then have "col ! b'" using 1(3) by blast
      moreover have "b' \<noteq> length col" using lt 1(2) by simp
      ultimately show False using 2(5) by simp
    qed
  qed
  from a b show ?thesis ..
qed

lemma distinct_singleton: "distinct xs \<Longrightarrow> set xs = {x} \<Longrightarrow> xs = [x]"
proof (cases xs)
  case Nil
  assume "set xs = {x}"
  with Nil show ?thesis by simp
next
  case (Cons y ys)
  assume d: "distinct xs" and s: "set xs = {x}"
  from s Cons have y: "y = x" and sub: "set ys \<subseteq> {x}" by auto
  from d Cons y have "x \<notin> set ys" by simp
  with sub have "ys = []" by (cases ys) auto
  then show ?thesis using Cons y by simp
qed

lemma column_runs_iff:
  "(p, s, e) \<in> set (run_length_merge 0 None (chroma_categories P False col)) \<longleftrightarrow>
   p = P \<and> sounding_block False col s e"
  using class_runs_iff [of p s e 0 False P 0 col] by simp

lemma column_runs_block:
  assumes "sounding_block False col a b"
  shows "filter (\<lambda>r. fst (snd r) < b \<and> a < snd (snd r))
           (run_length_merge 0 None (chroma_categories P False col)) = [(P, a, b)]"
proof (rule distinct_singleton)
  let ?rs = "run_length_merge 0 None (chroma_categories P False col)"
  have "chained 0 ?rs" using chained_merge [of None 0] by simp
  then show "distinct (filter (\<lambda>r. fst (snd r) < b \<and> a < snd (snd r)) ?rs)"
    by (simp add: chained_distinct)
  show "set (filter (\<lambda>r. fst (snd r) < b \<and> a < snd (snd r)) ?rs) = {(P, a, b)}"
  proof (rule set_eqI)
    fix r :: run
    obtain p s e where r: "r = (p, s, e)" by (cases r)
    have "r \<in> set (filter (\<lambda>r. fst (snd r) < b \<and> a < snd (snd r)) ?rs) \<longleftrightarrow>
        p = P \<and> sounding_block False col s e \<and> s < b \<and> a < e"
      unfolding r by (auto simp: column_runs_iff)
    also have "\<dots> \<longleftrightarrow> p = P \<and> s = a \<and> e = b"
      using blocks_overlap_equal [OF assms, of s e] assms block_nonempty [OF assms] by auto
    finally show "r \<in> set (filter (\<lambda>r. fst (snd r) < b \<and> a < snd (snd r)) ?rs) \<longleftrightarrow> r \<in> {(P, a, b)}"
      unfolding r by simp
  qed
qed

lemma column_runs_pitch:
  "r \<in> set (run_length_merge 0 None (chroma_categories P False col)) \<Longrightarrow> fst r = P"
  using column_runs_iff [of "fst r" "fst (snd r)" "snd (snd r)" P col] by simp

lemma concat_single:
  "c < n \<Longrightarrow> concat (map (\<lambda>c'. if c' = c then [x] else []) [0..<n]) = [x]"
proof (induction n)
  case 0
  then show ?case by simp
next
  case (Suc n)
  show ?case
  proof (cases "c = n")
    case True
    have "concat (map (\<lambda>c'. if c' = c then [x] else []) [0..<n]) = []"
      using True by (simp add: concat_eq_Nil_conv)
    then show ?thesis using True by simp
  next
    case False
    then have "c < n" using Suc.prems by simp
    then show ?thesis using Suc.IH False by simp
  qed
qed

lemma example_runs:
  "map (class_runs anchor (replicate 16 amin @ replicate 16 gmaj)) [0..<12] =
     [[(anchor, 0, 16)], [], [(anchor + 2, 16, 32)], [], [(anchor + 4, 0, 16)], [], [],
      [(anchor + 7, 16, 32)], [], [(anchor + 9, 0, 16)], [], [(anchor + 11, 16, 32)]]"
  by (simp add: class_runs_def class_column_def amin_def gmaj_def numeral_eq_Suc)

lemma example_notes:
  "chord_to_notes anchor (replicate 16 amin @ replicate 16 gmaj) 120 0 = Inr
     [\<lparr>pitch = anchor, start_seconds = 0, end_seconds = 2\<rparr>,
      \<lparr>pitch = anchor + 4, start_seconds = 0, end_seconds = 2\<rparr>,
      \<lparr>pitch = anchor + 9, start_seconds = 0, end_seconds = 2\<rparr>,
      \<lparr>pitch = anchor + 2, start_seconds = 2, end_seconds = 4\<rparr>,
      \<lparr>pitch = anchor + 7, start_seconds = 2, end_seconds = 4\<rparr>,
      \<lparr>pitch = anchor + 11, start_seconds = 2, end_seconds = 4\<rparr>]"
  unfolding chord_to_notes_def example_runs
  by (simp add: list_ex_iff amin_def gmaj_def step_time_def step_duration_def less_eq_prod_def)

lemma c1_chroma: "is_chord_chroma c1"
  by (simp add: is_chord_chroma_def c1_def cmaj_def gmaj_def list_all_iff)

lemma c1_block: "sounding_block False (class_column c1 7) 0 32"
proof -
  have col: "class_column c1 7 = replicate 32 True"
    by (simp add: class_column_def c1_def cmaj_def gmaj_def replicate_add [symmetric])
  show ?thesis unfolding col by (simp add: sounding_block_def)
qed

text \<open>
  C7. In a ChordChroma decoded at a positive tempo, a block of pitch class \<open>c\<close> (steps
  \<open>a\<close> to \<open>b\<close> all sounding, silent on either side) gives exactly one event of that pitch
  that overlaps the time of the block, and that event spans the block from its first step
  to its end: not one event per step, and no sub-blocks. For 16 steps of \<^verbatim>\<open>amin\<close> followed
  by 16 steps of \<^verbatim>\<open>gmaj\<close> at 120 bpm from offset 0 the events are the three classes of
  \<^verbatim>\<open>amin\<close> from 0 s to 2 s and the three classes of \<^verbatim>\<open>gmaj\<close> from 2 s to 4 s.
\<close>

theorem chord_block_is_one_event:
  "(is_chord_chroma chroma \<and> 0 < bpm \<and> c < 12 \<and>
    sounding_block False (class_column chroma c) a b \<longrightarrow>
      (\<exists>es. chord_to_notes anchor chroma bpm start = Inr es \<and>
         filter (\<lambda>e. pitch e = anchor + int c \<and>
                      start_seconds e < step_time bpm start b \<and>
                      step_time bpm start a < end_seconds e) es =
           [\<lparr>pitch = anchor + int c, start_seconds = step_time bpm start a,
             end_seconds = step_time bpm start b\<rparr>])) \<and>
   chord_to_notes anchor (replicate 16 amin @ replicate 16 gmaj) 120 0 = Inr
     [\<lparr>pitch = anchor, start_seconds = 0, end_seconds = 2\<rparr>,
      \<lparr>pitch = anchor + 4, start_seconds = 0, end_seconds = 2\<rparr>,
      \<lparr>pitch = anchor + 9, start_seconds = 0, end_seconds = 2\<rparr>,
      \<lparr>pitch = anchor + 2, start_seconds = 2, end_seconds = 4\<rparr>,
      \<lparr>pitch = anchor + 7, start_seconds = 2, end_seconds = 4\<rparr>,
      \<lparr>pitch = anchor + 11, start_seconds = 2, end_seconds = 4\<rparr>]"
proof (intro conjI impI)
  assume h: "is_chord_chroma chroma \<and> 0 < bpm \<and> c < 12 \<and>
    sounding_block False (class_column chroma c) a b"
  then have chroma: "is_chord_chroma chroma" and bpm: "0 < bpm" and c: "c < 12"
    and blk: "sounding_block False (class_column chroma c) a b"
    by simp_all

  let ?K = "\<lambda>e. (start_seconds e, pitch e)"
  let ?ev = "to_note_event bpm start"
  let ?cr = "class_runs anchor chroma"
  let ?F = "\<lambda>e. pitch e = anchor + int c \<and> start_seconds e < step_time bpm start b \<and>
                  step_time bpm start a < end_seconds e"
  let ?G = "\<lambda>r. fst r = anchor + int c \<and> fst (snd r) < b \<and> a < snd (snd r)"
  let ?x = "(anchor + int c, a, b)"
  let ?es = "sort_key ?K (map ?ev (concat (map ?cr [0..<12])))"
  have shape: "length chroma = 32" "\<not> list_ex (\<lambda>row. length row \<noteq> 12) chroma"
    using chroma by (auto simp: is_chord_chroma_def list_ex_iff list_all_iff)
  have dec: "chord_to_notes anchor chroma bpm start = Inr ?es"
    using shape by (simp add: chord_to_notes_def)
  have FG: "?F (?ev r) \<longleftrightarrow> ?G r" for r
    using bpm
    by (simp add: pitch_to_note_event start_to_note_event end_to_note_event step_time_less_iff)
  have per_class: "filter ?G (?cr c') = (if c' = c then [?x] else [])" for c'
  proof (cases "c' = c")
    case True
    have "filter ?G (?cr c) = filter (\<lambda>r. fst (snd r) < b \<and> a < snd (snd r)) (?cr c)"
      by (rule filter_cong) (auto simp: class_runs_def dest: column_runs_pitch)
    also have "\<dots> = [?x]"
      unfolding class_runs_def using blk by (rule column_runs_block)
    finally show ?thesis using True by simp
  next
    case False
    have "\<forall>r\<in>set (?cr c'). \<not> ?G r"
    proof
      fix r assume "r \<in> set (?cr c')"
      then have "fst r = anchor + int c'" unfolding class_runs_def by (rule column_runs_pitch)
      with False show "\<not> ?G r" by simp
    qed
    then have "filter ?G (?cr c') = []" by (simp add: filter_empty_conv)
    with False show ?thesis by simp
  qed
  have "filter ?F ?es = sort_key ?K (filter ?F (map ?ev (concat (map ?cr [0..<12]))))"
    by (rule filter_sort)
  also have "filter ?F (map ?ev (concat (map ?cr [0..<12]))) =
      map ?ev (filter ?G (concat (map ?cr [0..<12])))"
    by (simp add: filter_map comp_def FG)
  also have "filter ?G (concat (map ?cr [0..<12])) =
      concat (map (\<lambda>c'. if c' = c then [?x] else []) [0..<12])"
    by (simp only: filter_concat map_map comp_def per_class)
  also have "\<dots> = [?x]" using c by (rule concat_single)
  finally have "filter ?F ?es = [?ev ?x]" by simp
  then have "filter ?F ?es =
      [\<lparr>pitch = anchor + int c, start_seconds = step_time bpm start a,
        end_seconds = step_time bpm start b\<rparr>]"
    by simp
  with dec show "\<exists>es. chord_to_notes anchor chroma bpm start = Inr es \<and>
         filter (\<lambda>e. pitch e = anchor + int c \<and>
                      start_seconds e < step_time bpm start b \<and>
                      step_time bpm start a < end_seconds e) es =
           [\<lparr>pitch = anchor + int c, start_seconds = step_time bpm start a,
             end_seconds = step_time bpm start b\<rparr>]"
    by blast
next
  show "chord_to_notes anchor (replicate 16 amin @ replicate 16 gmaj) 120 0 = Inr
     [\<lparr>pitch = anchor, start_seconds = 0, end_seconds = 2\<rparr>,
      \<lparr>pitch = anchor + 4, start_seconds = 0, end_seconds = 2\<rparr>,
      \<lparr>pitch = anchor + 9, start_seconds = 0, end_seconds = 2\<rparr>,
      \<lparr>pitch = anchor + 2, start_seconds = 2, end_seconds = 4\<rparr>,
      \<lparr>pitch = anchor + 7, start_seconds = 2, end_seconds = 4\<rparr>,
      \<lparr>pitch = anchor + 11, start_seconds = 2, end_seconds = 4\<rparr>]"
    by (rule example_notes)
qed

theorem chord_block_is_one_event_witness:
  "\<exists>es. chord_to_notes 48 c1 120 0 = Inr es \<and>
     filter (\<lambda>e. pitch e = 55 \<and> start_seconds e < 4 \<and> 0 < end_seconds e) es =
       [\<lparr>pitch = 55, start_seconds = 0, end_seconds = 4\<rparr>]"
proof -
  have h: "is_chord_chroma c1 \<and> (0::real) < 120 \<and> (7::nat) < 12 \<and>
      sounding_block False (class_column c1 7) 0 32"
    using c1_chroma c1_block by simp
  have t: "step_time 120 0 0 = 0" "step_time 120 0 32 = 4"
    by (simp_all add: step_time_def step_duration_def)
  from chord_block_is_one_event [of c1 120 7 0 32 48 0] h show ?thesis
    by (simp add: t)
qed

end
